theory Spec2Isabelle
  imports Complex_Main
begin

section \<open>The game client of game.ts as a state machine over an object store\<close>

text \<open>
  The component \<open>Game\<close> (src/unnamed/part\_000, the current version of
  src/frontend/src/app/components/game/game.ts) is embedded shallowly: its fields are a
  record, its socket and input handlers are functions from state to state, and the
  objects it allocates and mutates in place (point objects and body arrays) live in an
  explicit store, so that aliasing between the authoritative snapshot and the visual
  players can be stated.

  JavaScript numbers are modelled as real numbers. Where the source would compute a value
  that is no real number (NaN from an \<open>undefined\<close> coordinate, an infinity from a
  division by zero) or would throw, the model returns an error instead of a state.
\<close>

datatype error = NotANumber | NonFinite | TypeError

type_synonym addr = nat

text \<open>A point object \<open>{x, y}\<close>; \<open>Blank\<close> is an object without numeric coordinates,
  such as the \<open>{}\<close> that spreading \<open>undefined\<close> produces.\<close>

datatype pobj = Pt real real | Blank

text \<open>An authoritative player as the loop reads it: \<open>body\<close> (absent, or a reference
  to an array of point references), \<open>angle\<close> and \<open>length\<close>.\<close>

record player =
  pbody :: "addr option"
  pangle :: real
  plength :: real

text \<open>\<open>interface VisualPlayer { x; y; angle; body: Point[] }\<close>; the body is a reference
  to an array in the store.\<close>

record visual =
  vx :: real
  vy :: real
  vangle :: real
  vbody :: addr

record foodItem =
  fx :: real
  fy :: real
  fcolor :: string
  is_loot :: bool

text \<open>\<open>config: any\<close>: the zoom constants may be absent (\<open>undefined\<close>).\<close>

record gconfig =
  MAP_SIZE :: real
  DEBUG_MODE :: bool
  ZOOM_BASE :: "real option"
  ZOOM_DAMPENER :: "real option"

datatype intent =
    InputUpdate real
  | BoostUpdate bool
  | EnterSpectator
  | RequestRespawn
  | CheatBoost real

record game =
  isConnected :: bool
  myId :: string
  isDead :: bool
  finalScore :: real
  playerCount :: nat
  myScore :: int
  spectateMode :: bool
  players :: "(string \<times> player) list"
  food :: "string \<rightharpoonup> foodItem"
  leaderboard :: "(string \<times> real) list"
  visualPlayers :: "string \<rightharpoonup> visual"
  camX :: real
  camY :: real
  currentScale :: real
  targetScale :: real
  lastTime :: real
  driftAngle :: real
  gameConfig :: gconfig
  keysPressed :: "string \<Rightarrow> bool"
  points :: "addr \<Rightarrow> pobj"
  arrays :: "addr \<Rightarrow> addr list"
  nextPoint :: addr
  nextArray :: addr
  emitted :: "intent list"

subsection \<open>The store: allocation of point objects and arrays\<close>

text \<open>Stores the objects \<open>vs\<close> at the consecutive addresses from \<open>n\<close> on.\<close>

primrec storeAll :: "(addr \<Rightarrow> 'a) \<Rightarrow> addr \<Rightarrow> 'a list \<Rightarrow> (addr \<Rightarrow> 'a)" where
  "storeAll f n [] = f"
| "storeAll f n (v # vs) = storeAll (f(n := v)) (Suc n) vs"

text \<open>A new array holding new objects with the given contents: what
  \<open>body.map(b => ({x: b.x, y: b.y}))\<close> and the deserialisation of a body allocate.\<close>

definition allocArray :: "pobj list \<Rightarrow> game \<Rightarrow> addr \<times> game" where
  "allocArray objs s =
     (nextArray s,
      s\<lparr>points := storeAll (points s) (nextPoint s) objs,
        arrays := (arrays s)(nextArray s := [nextPoint s ..< nextPoint s + length objs]),
        nextPoint := nextPoint s + length objs,
        nextArray := Suc (nextArray s)\<rparr>)"

text \<open>\<open>p.body.map((b) => ({ x: b.x, y: b.y }))\<close>\<close>

definition copyBody :: "addr \<Rightarrow> game \<Rightarrow> addr \<times> game" where
  "copyBody pa s = allocArray (map (points s) (arrays s pa)) s"

subsection \<open>updateVisuals: one iteration of the loop over the players\<close>

text \<open>\<open>Math.hypot\<close>\<close>

definition hypot :: "real \<Rightarrow> real \<Rightarrow> real" where
  "hypot a b = sqrt (a\<^sup>2 + b\<^sup>2)"

text \<open>\<open>while (diff > Math.PI) diff -= Math.PI * 2;\<close>\<close>

function wrapDown :: "real \<Rightarrow> real" where
  "wrapDown d = (if d > pi then wrapDown (d - pi * 2) else d)"
  by pat_completeness auto

lemma wrap_measure_down:
  assumes "d > pi"
  shows "nat \<lceil>(d - pi * 2) / (2 * pi)\<rceil> < nat \<lceil>d / (2 * pi)\<rceil>"
proof -
  have e: "(d - pi * 2) / (2 * pi) = d / (2 * pi) - 1"
    by (simp add: field_simps)
  have "0 < d" using assms pi_gt_zero by linarith
  then have "d / (2 * pi) > 0" by simp
  then have "\<lceil>d / (2 * pi)\<rceil> \<ge> 1" by linarith
  then show ?thesis unfolding e by simp
qed

termination wrapDown
  apply (relation "measure (\<lambda>d. nat \<lceil>d / (2 * pi)\<rceil>)")
   apply (rule wf_measure)
  apply (simp only: in_measure)
  apply (rule wrap_measure_down)
  apply assumption
  done

text \<open>\<open>while (diff < -Math.PI) diff += Math.PI * 2;\<close>\<close>

function wrapUp :: "real \<Rightarrow> real" where
  "wrapUp d = (if d < - pi then wrapUp (d + pi * 2) else d)"
  by pat_completeness auto

lemma wrap_measure_up:
  assumes "d < - pi"
  shows "nat \<lceil>- (d + pi * 2) / (2 * pi)\<rceil> < nat \<lceil>- d / (2 * pi)\<rceil>"
proof -
  have e: "- (d + pi * 2) / (2 * pi) = - d / (2 * pi) - 1"
    by (simp add: field_simps)
  have "0 < - d" using assms pi_gt_zero by linarith
  then have "- d / (2 * pi) > 0" by (intro divide_pos_pos) simp_all
  then have "\<lceil>- d / (2 * pi)\<rceil> \<ge> 1" by linarith
  then show ?thesis unfolding e by simp
qed

termination wrapUp
  apply (relation "measure (\<lambda>d. nat \<lceil>- d / (2 * pi)\<rceil>)")
   apply (rule wf_measure)
  apply (simp only: in_measure)
  apply (rule wrap_measure_up)
  apply assumption
  done

declare wrapDown.simps [simp del] wrapUp.simps [simp del]

text \<open>The two loops in sequence, applied to \<open>p.angle - vis.angle\<close>.\<close>

definition wrapAngle :: "real \<Rightarrow> real" where
  "wrapAngle d = wrapUp (wrapDown d)"

text \<open>\<open>vis.body.push({ ...vis.body[vis.body.length - 1] })\<close>: a new object with the
  tail's own properties; on an empty array the index is \<open>-1\<close>, the element
  \<open>undefined\<close> and the new object \<open>{}\<close>.\<close>

definition pushTailCopy :: "addr \<Rightarrow> game \<Rightarrow> game" where
  "pushTailCopy va s =
     (let b = arrays s va;
          obj = (if b = [] then Blank else points s (last b))
      in s\<lparr>points := (points s)(nextPoint s := obj),
           arrays := (arrays s)(va := b @ [nextPoint s]),
           nextPoint := Suc (nextPoint s)\<rparr>)"

text \<open>\<open>while (vis.body.length < p.body.length) vis.body.push(...)\<close>\<close>

function growBody :: "addr \<Rightarrow> addr \<Rightarrow> game \<Rightarrow> game" where
  "growBody pa va s =
     (if length (arrays s va) < length (arrays s pa)
      then growBody pa va (pushTailCopy va s) else s)"
  by pat_completeness auto
termination
  by (relation "measure (\<lambda>(pa, va, s). length (arrays s pa) - length (arrays s va))")
     (auto simp: pushTailCopy_def Let_def)

text \<open>\<open>vis.body.pop()\<close>\<close>

definition popTail :: "addr \<Rightarrow> game \<Rightarrow> game" where
  "popTail va s = s\<lparr>arrays := (arrays s)(va := butlast (arrays s va))\<rparr>"

text \<open>\<open>while (vis.body.length > p.body.length) vis.body.pop();\<close>\<close>

function shrinkBody :: "addr \<Rightarrow> addr \<Rightarrow> game \<Rightarrow> game" where
  "shrinkBody pa va s =
     (if length (arrays s va) > length (arrays s pa)
      then shrinkBody pa va (popTail va s) else s)"
  by pat_completeness auto
termination
  by (relation "measure (\<lambda>(pa, va, s). length (arrays s va) - length (arrays s pa))")
     (auto simp: popTail_def)

declare growBody.simps [simp del] shrinkBody.simps [simp del]

text \<open>The body-length reconciliation: both loops, in the source's order.\<close>

definition reconcile :: "addr \<Rightarrow> addr \<Rightarrow> game \<Rightarrow> game" where
  "reconcile pa va s = shrinkBody pa va (growBody pa va s)"

text \<open>The body of the \<open>for\<close> loop at index \<open>i\<close>:
  \<open>vis.body[i].x += (p.body[i].x - vis.body[i].x) * lerpSpeed\<close>, then the same for
  \<open>y\<close>. A missing \<open>vis.body[i]\<close> throws; a coordinate that is not a number
  gives NaN.\<close>

definition lerpPoint :: "real \<Rightarrow> addr \<Rightarrow> addr \<Rightarrow> nat \<Rightarrow> game \<Rightarrow> error + game" where
  "lerpPoint lerpSpeed pa va i s =
     (let pb = arrays s pa; vb = arrays s va in
      if i < length vb then
        (case points s (pb ! i) of
           Blank \<Rightarrow> Inl NotANumber
         | Pt px py \<Rightarrow>
            (case points s (vb ! i) of
               Blank \<Rightarrow> Inl NotANumber
             | Pt qx qy \<Rightarrow>
                 Inr (s\<lparr>points := (points s)
                        (vb ! i := Pt (qx + (px - qx) * lerpSpeed)
                                      (qy + (py - qy) * lerpSpeed))\<rparr>)))
      else Inl TypeError)"

lemma lerpPoint_arrays: "lerpPoint ls pa va i s = Inr s' \<Longrightarrow> arrays s' = arrays s"
  by (auto simp: lerpPoint_def Let_def split: if_splits pobj.splits)

text \<open>\<open>for (let i = 0; i < p.body.length; i++) { ... }\<close>, entered at index \<open>i\<close>.\<close>

function lerpBody :: "real \<Rightarrow> addr \<Rightarrow> addr \<Rightarrow> nat \<Rightarrow> game \<Rightarrow> error + game" where
  "lerpBody lerpSpeed pa va i s =
     (if i < length (arrays s pa) then
        (case lerpPoint lerpSpeed pa va i s of
           Inl e \<Rightarrow> Inl e
         | Inr s' \<Rightarrow> lerpBody lerpSpeed pa va (Suc i) s')
      else Inr s)"
  by pat_completeness auto
termination
  by (relation "measure (\<lambda>(ls, pa, va, i, s). length (arrays s pa) - i)")
     (auto dest: lerpPoint_arrays)

declare lerpBody.simps [simp del]

text \<open>The rest of the iteration once \<open>vis\<close> exists and the lengths are reconciled:
  teleport detection, then either the snap or the interpolation of head, angle and
  body. With a head coordinate that is not a number \<open>dist\<close> is NaN, the comparison
  is false and the interpolation stores NaN.\<close>

definition interpolate :: "real \<Rightarrow> string \<Rightarrow> player \<Rightarrow> addr \<Rightarrow> game \<Rightarrow> error + game" where
  "interpolate dt pid p pa s =
     (case visualPlayers s pid of
        None \<Rightarrow> Inl TypeError
      | Some vis \<Rightarrow>
         (case arrays s pa of
            [] \<Rightarrow> Inl TypeError
          | h # _ \<Rightarrow>
             (case points s h of
                Blank \<Rightarrow> Inl NotANumber
              | Pt tx ty \<Rightarrow>
                 (let lerpSpeed = 10.0 * dt;
                      dist = hypot (tx - vx vis) (ty - vy vis)
                  in if dist > 500 then
                       (let (a, s') = copyBody pa s
                        in Inr (s'\<lparr>visualPlayers := (visualPlayers s')
                                 (pid \<mapsto> vis\<lparr>vx := tx, vy := ty,
                                             vangle := pangle p, vbody := a\<rparr>)\<rparr>))
                     else
                       (let diff = wrapAngle (pangle p - vangle vis);
                            vis' = vis\<lparr>vx := vx vis + (tx - vx vis) * lerpSpeed,
                                       vy := vy vis + (ty - vy vis) * lerpSpeed,
                                       vangle := vangle vis + diff * lerpSpeed\<rparr>
                        in lerpBody lerpSpeed pa (vbody vis) 0
                             (s\<lparr>visualPlayers := (visualPlayers s)(pid \<mapsto> vis')\<rparr>))))))"

text \<open>\<open>this.visualPlayers[pid] = { x: p.body[0].x, y: p.body[0].y, angle: p.angle,
  body: bodyCopy }\<close>\<close>

definition createVisual :: "string \<Rightarrow> player \<Rightarrow> addr \<Rightarrow> game \<Rightarrow> error + game" where
  "createVisual pid p pa s =
     (let (a, s') = copyBody pa s in
      case arrays s' pa of
        [] \<Rightarrow> Inl TypeError
      | h # _ \<Rightarrow>
         (case points s' h of
            Blank \<Rightarrow> Inl NotANumber
          | Pt hx hy \<Rightarrow>
              Inr (s'\<lparr>visualPlayers := (visualPlayers s')
                     (pid \<mapsto> \<lparr>vx = hx, vy = hy, vangle = pangle p, vbody = a\<rparr>)\<rparr>)))"

text \<open>The body of \<open>for (let pid in this.players)\<close>.\<close>

definition stepPlayer :: "real \<Rightarrow> string \<Rightarrow> game \<Rightarrow> error + game" where
  "stepPlayer dt pid s =
     (case map_of (players s) pid of
        None \<Rightarrow> Inl TypeError
      | Some p \<Rightarrow>
         (case pbody p of
            None \<Rightarrow> Inr s
          | Some pa \<Rightarrow>
             if arrays s pa = [] then Inr s
             else
               (case (case visualPlayers s pid of
                        None \<Rightarrow> createVisual pid p pa s
                      | Some _ \<Rightarrow> Inr s) of
                  Inl e \<Rightarrow> Inl e
                | Inr s1 \<Rightarrow>
                   (case visualPlayers s1 pid of
                      None \<Rightarrow> Inl TypeError
                    | Some vis \<Rightarrow> interpolate dt pid p pa (reconcile pa (vbody vis) s1)))))"

text \<open>The loop over the keys of \<open>this.players\<close>, in their enumeration order.\<close>

fun forPlayers :: "real \<Rightarrow> string list \<Rightarrow> game \<Rightarrow> error + game" where
  "forPlayers dt [] s = Inr s"
| "forPlayers dt (pid # pids) s =
     (case stepPlayer dt pid s of
        Inl e \<Rightarrow> Inl e
      | Inr s' \<Rightarrow> forPlayers dt pids s')"

text \<open>The cleanup loop:
  \<open>if (!this.players[pid] && pid !== this.myId()) delete this.visualPlayers[pid]\<close>.\<close>

definition cleanup :: "game \<Rightarrow> game" where
  "cleanup s =
     s\<lparr>visualPlayers :=
         (\<lambda>pid. if map_of (players s) pid = None \<and> pid \<noteq> myId s then None
                else visualPlayers s pid)\<rparr>"

definition updatePlayers :: "real \<Rightarrow> game \<Rightarrow> error + game" where
  "updatePlayers dt s = forPlayers dt (map fst (players s)) (cleanup s)"

subsection \<open>updateVisuals: the camera\<close>

text \<open>\<open>updateSpectatorMovement\<close>. \<open>speed\<close> divides by the current scale; it is
  only used when a movement key is held.\<close>

definition updateSpectatorMovement :: "real \<Rightarrow> game \<Rightarrow> error + game" where
  "updateSpectatorMovement dt s =
     (let k = keysPressed s;
          up = (k ''w'' \<or> k ''arrowup'');
          down1 = k ''arrowdown'';
          down2 = (k ''s'' \<or> k ''arrowdown'');
          left = (k ''a'' \<or> k ''arrowleft'');
          right = (k ''d'' \<or> k ''arrowright'')
      in if \<not> (up \<or> down1 \<or> down2 \<or> left \<or> right) then Inr s
         else if currentScale s = 0 then
           (if 1500 * dt = 0 then Inl NotANumber else Inl NonFinite)
         else
           (let speed = 1500 * dt / currentScale s;
                y1 = (if up then camY s - speed else camY s);
                y2 = (if down1 then y1 + speed else y1);
                y3 = (if down2 then y2 + speed else y2);
                x1 = (if left then camX s - speed else camX s);
                x2 = (if right then x1 + speed else x1)
            in Inr (s\<lparr>camX := x2, camY := y3\<rparr>)))"

definition updateCamera :: "real \<Rightarrow> game \<Rightarrow> error + game" where
  "updateCamera dt s =
     (if spectateMode s then
        (case updateSpectatorMovement dt s of
           Inl e \<Rightarrow> Inl e
         | Inr s' \<Rightarrow>
             Inr (s'\<lparr>currentScale :=
                    currentScale s' + (targetScale s' - currentScale s') * (5.0 * dt)\<rparr>))
      else if isDead s then
        Inr (s\<lparr>camX := camX s + cos (driftAngle s) * (20 * dt),
               camY := camY s + sin (driftAngle s) * (20 * dt),
               currentScale := currentScale s + (targetScale s - currentScale s) * (1.0 * dt)\<rparr>)
      else
        (let s' = (case visualPlayers s (myId s) of
                     None \<Rightarrow> s
                   | Some me \<Rightarrow>
                       if hypot (vx me - camX s) (vy me - camY s) > 1000
                       then s\<lparr>camX := vx me, camY := vy me\<rparr>
                       else s\<lparr>camX := camX s + (vx me - camX s) * (10.0 * dt),
                              camY := camY s + (vy me - camY s) * (10.0 * dt)\<rparr>)
         in Inr (s'\<lparr>currentScale :=
                   currentScale s' + (targetScale s' - currentScale s') * (2.0 * dt)\<rparr>)))"

definition updateVisuals :: "real \<Rightarrow> game \<Rightarrow> error + game" where
  "updateVisuals dt s =
     (case updatePlayers dt s of
        Inl e \<Rightarrow> Inl e
      | Inr s' \<Rightarrow> updateCamera dt s')"

subsection \<open>The render loop: which players are drawn\<close>

text \<open>The cull test of the snake loop,
  \<open>Math.abs(vis.x - this.camX) > width / this.currentScale + 200\<close>. With a scale of
  zero the quotient is \<open>Infinity\<close> (or NaN for a zero width) and the comparison is
  false.\<close>

definition culled :: "real \<Rightarrow> game \<Rightarrow> visual \<Rightarrow> bool" where
  "culled width s vis =
     (if currentScale s = 0 then False
      else \<bar>vx vis - camX s\<bar> > width / currentScale s + 200)"

text \<open>The players whose iteration of the snake loop reaches the drawing code, in the
  loop's order.\<close>

definition renderPlayers :: "real \<Rightarrow> game \<Rightarrow> string list" where
  "renderPlayers width s =
     filter (\<lambda>pid.
        \<not> (isDead s \<and> pid = myId s) \<and>
        (case visualPlayers s pid of
           None \<Rightarrow> False
         | Some vis \<Rightarrow> arrays s (vbody vis) \<noteq> [] \<and> \<not> culled width s vis))
       (map fst (players s))"

subsection \<open>Socket events\<close>

record jplayer =
  jbody :: "(real \<times> real) list option"
  jangle :: real
  jlength :: real

record foodDiff =
  added :: "(string \<rightharpoonup> foodItem) option"
  removed :: "string list option"

record tick =
  tplayers :: "(string \<times> jplayer) list"
  tleaderboard :: "(string \<times> real) list option"
  food_diff :: "foodDiff option"

text \<open>The players of a snapshot arrive as newly deserialised objects: every body is a
  new array of new point objects.\<close>

fun installPlayers :: "(string \<times> jplayer) list \<Rightarrow> game \<Rightarrow> (string \<times> player) list \<times> game" where
  "installPlayers [] s = ([], s)"
| "installPlayers ((pid, jp) # rest) s =
     (case jbody jp of
        None \<Rightarrow>
          (let (ps, s') = installPlayers rest s
           in ((pid, \<lparr>pbody = None, pangle = jangle jp, plength = jlength jp\<rparr>) # ps, s'))
      | Some pts \<Rightarrow>
          (let (a, s1) = allocArray (map (\<lambda>(x, y). Pt x y) pts) s;
               (ps, s') = installPlayers rest s1
           in ((pid, \<lparr>pbody = Some a, pangle = jangle jp, plength = jlength jp\<rparr>) # ps, s')))"

text \<open>The food diff of a tick: \<open>removed.forEach(fid => delete this.food[fid])\<close>, then
  \<open>Object.assign(this.food, added)\<close>; either part may be absent.\<close>

definition applyFoodDiff :: "foodDiff \<Rightarrow> (string \<rightharpoonup> foodItem) \<Rightarrow> (string \<rightharpoonup> foodItem)" where
  "applyFoodDiff d f =
     (let f1 = (case removed d of
                  None \<Rightarrow> f
                | Some ids \<Rightarrow> fold (\<lambda>fid m. m(fid := None)) ids f)
      in case added d of
           None \<Rightarrow> f1
         | Some a \<Rightarrow> f1 ++ a)"

text \<open>\<open>this.config.ZOOM_BASE || 1.8\<close>: an absent or zero constant is falsy.\<close>

definition orDefault :: "real option \<Rightarrow> real \<Rightarrow> real" where
  "orDefault v d = (case v of None \<Rightarrow> d | Some b \<Rightarrow> if b = 0 then d else b)"

text \<open>\<open>Math.max(0.4, base / (1 + me.length / damp))\<close>. \<open>damp\<close> and \<open>base\<close> are
  not zero; a zero denominator gives an infinity of the sign of \<open>base\<close>.\<close>

definition zoomTarget :: "gconfig \<Rightarrow> real \<Rightarrow> error + real" where
  "zoomTarget cfg len =
     (let base = orDefault (ZOOM_BASE cfg) 1.8;
          damp = orDefault (ZOOM_DAMPENER cfg) 2500
      in if 1 + len / damp = 0 then (if base > 0 then Inl NonFinite else Inr 0.4)
         else Inr (max 0.4 (base / (1 + len / damp))))"

text \<open>The handler of \<open>game_tick\<close>; \<open>sid\<close> is the value of \<open>this.socket.id\<close>
  (empty when undefined).\<close>

definition gameTick :: "tick \<Rightarrow> string \<Rightarrow> game \<Rightarrow> error + game" where
  "gameTick t sid s =
     (let (ps, s0) = installPlayers (tplayers t) s;
          s1 = s0\<lparr>players := ps,
                  leaderboard := (case tleaderboard t of None \<Rightarrow> [] | Some l \<Rightarrow> l),
                  playerCount := length ps\<rparr>;
          s2 = (case food_diff t of
                  None \<Rightarrow> s1
                | Some d \<Rightarrow> s1\<lparr>food := applyFoodDiff d (food s1)\<rparr>);
          s3 = (if myId s2 = [] \<and> sid \<noteq> [] then s2\<lparr>myId := sid\<rparr> else s2)
      in case map_of (players s3) (myId s3) of
           None \<Rightarrow> Inr s3
         | Some me \<Rightarrow>
             if isDead s3 then Inr s3
             else (case zoomTarget (gameConfig s3) (plength me) of
                     Inl e \<Rightarrow> Inl e
                   | Inr z \<Rightarrow> Inr (s3\<lparr>myScore := \<lfloor>plength me\<rfloor>, targetScale := z\<rparr>)))"

subsection \<open>Input handlers\<close>

definition lowerChar :: "char \<Rightarrow> char" where
  "lowerChar c =
     (case map_of (zip ''ABCDEFGHIJKLMNOPQRSTUVWXYZ'' ''abcdefghijklmnopqrstuvwxyz'') c of
        None \<Rightarrow> c
      | Some d \<Rightarrow> d)"

definition toLowerCase :: "string \<Rightarrow> string" where
  "toLowerCase k = map lowerChar k"

text \<open>\<open>Math.atan2(y, x)\<close>\<close>

definition atan2 :: "real \<Rightarrow> real \<Rightarrow> real" where
  "atan2 y x =
     (if x > 0 then arctan (y / x)
      else if x < 0 then (if y \<ge> 0 then arctan (y / x) + pi else arctan (y / x) - pi)
      else if y > 0 then pi / 2
      else if y < 0 then - (pi / 2)
      else 0)"

definition emit :: "intent \<Rightarrow> game \<Rightarrow> game" where
  "emit i s = s\<lparr>emitted := emitted s @ [i]\<rparr>"

definition startBoost :: "game \<Rightarrow> game" where
  "startBoost s = (if myId s \<noteq> [] \<and> \<not> isDead s then emit (BoostUpdate True) s else s)"

definition endBoost :: "game \<Rightarrow> game" where
  "endBoost s = (if myId s \<noteq> [] then emit (BoostUpdate False) s else s)"

definition cheatBoost :: "game \<Rightarrow> game" where
  "cheatBoost s = (if myId s \<noteq> [] \<and> \<not> isDead s then emit (CheatBoost 1000) s else s)"

text \<open>\<open>onKeyDown\<close>: the key is recorded, \<open>s\<close> toggles the spectator state,
  \<open>c\<close> is the cheat boost and the space bar starts a boost.\<close>

definition onKeyDown :: "string \<Rightarrow> string \<Rightarrow> game \<Rightarrow> game" where
  "onKeyDown key code s =
     (let k = toLowerCase key;
          s1 = s\<lparr>keysPressed := (keysPressed s)(k := True)\<rparr>;
          s2 = (if k = ''s'' then
                  (let isSpectating = \<not> spectateMode s1;
                       s' = s1\<lparr>spectateMode := isSpectating\<rparr>
                   in if isSpectating
                      then (emit EnterSpectator s')\<lparr>targetScale := 0.2, isDead := True\<rparr>
                      else (emit RequestRespawn s')\<lparr>targetScale := 1.0, isDead := False\<rparr>)
                else s1);
          s3 = (if k = ''c'' then cheatBoost s2 else s2)
      in if code = ''Space'' then startBoost s3 else s3)"

definition onKeyUp :: "string \<Rightarrow> string \<Rightarrow> game \<Rightarrow> game" where
  "onKeyUp key code s =
     (let s1 = s\<lparr>keysPressed := (keysPressed s)(toLowerCase key := False)\<rparr>
      in if code = ''Space'' then endBoost s1 else s1)"

text \<open>\<open>onWheel\<close>: only in spectator mode; the target scale is clamped to
  \<open>[0.05, 5.0]\<close>.\<close>

definition onWheel :: "real \<Rightarrow> game \<Rightarrow> game" where
  "onWheel deltaY s =
     (if \<not> spectateMode s then s
      else s\<lparr>targetScale := min (max 0.05 (targetScale s + deltaY * - 0.002)) 5.0\<rparr>)"

definition onMouseMove :: "real \<Rightarrow> real \<Rightarrow> real \<Rightarrow> real \<Rightarrow> game \<Rightarrow> game" where
  "onMouseMove clientX clientY innerWidth innerHeight s =
     (if myId s = [] \<or> isDead s then s
      else emit (InputUpdate (atan2 (clientY - innerHeight / 2) (clientX - innerWidth / 2))) s)"

subsection \<open>The client as a transition system\<close>

text \<open>Everything that reaches the component: the socket events with their payloads
  (\<open>Death\<close> also carries the value \<open>Math.random()\<close> returns, \<open>Connect\<close> and
  \<open>GameTick\<close> the current \<open>socket.id\<close>), the animation frame with its time stamp,
  and the input events.\<close>

datatype event =
    Connect string
  | InitConfig gconfig
  | InitFood "string \<rightharpoonup> foodItem"
  | Death real real
  | InitPlayer string
  | Disconnect
  | GameTick tick string
  | Frame real
  | MouseMove real real real real
  | SpaceDown
  | SpaceUp
  | MouseDown
  | MouseUp
  | KeyDown string string
  | KeyUp string string
  | Wheel real

fun handle :: "event \<Rightarrow> game \<Rightarrow> error + game" where
  "handle (Connect sid) s =
     Inr (let s1 = s\<lparr>isConnected := True\<rparr> in if sid \<noteq> [] then s1\<lparr>myId := sid\<rparr> else s1)"
| "handle (InitConfig cfg) s = Inr (s\<lparr>gameConfig := cfg\<rparr>)"
| "handle (InitFood fullFood) s = Inr (s\<lparr>food := fullFood\<rparr>)"
| "handle (Death score r) s =
     Inr (s\<lparr>isDead := True, finalScore := score, targetScale := 0.4,
            driftAngle := r * pi * 2\<rparr>)"
| "handle (InitPlayer pid) s =
     Inr (let s1 = s\<lparr>isDead := False\<rparr>;
              s2 = (if pid \<noteq> [] then s1\<lparr>myId := pid\<rparr> else s1)
          in s2\<lparr>targetScale := 1.0\<rparr>)"
| "handle Disconnect s = Inr (s\<lparr>isConnected := False\<rparr>)"
| "handle (GameTick t sid) s = gameTick t sid s"
| "handle (Frame now) s =
     updateVisuals ((now - lastTime s) / 1000) (s\<lparr>lastTime := now\<rparr>)"
| "handle (MouseMove cx cy w h) s = Inr (onMouseMove cx cy w h s)"
| "handle SpaceDown s = Inr (startBoost s)"
| "handle SpaceUp s = Inr (endBoost s)"
| "handle MouseDown s = Inr (startBoost s)"
| "handle MouseUp s = Inr (endBoost s)"
| "handle (KeyDown key code) s = Inr (onKeyDown key code s)"
| "handle (KeyUp key code) s = Inr (onKeyUp key code s)"
| "handle (Wheel deltaY) s = Inr (onWheel deltaY s)"

text \<open>The fields as their initialisers set them; the store is empty.\<close>

definition initial :: game where
  "initial =
     \<lparr>isConnected = False, myId = [], isDead = False, finalScore = 0, playerCount = 0,
      myScore = 0, spectateMode = False, players = [], food = Map.empty, leaderboard = [],
      visualPlayers = Map.empty, camX = 0, camY = 0, currentScale = 1, targetScale = 1,
      lastTime = 0, driftAngle = 0,
      gameConfig = \<lparr>MAP_SIZE = 5000, DEBUG_MODE = False, ZOOM_BASE = Some 1.8,
                     ZOOM_DAMPENER = Some 2500\<rparr>,
      keysPressed = (\<lambda>_. False), points = (\<lambda>_. Blank), arrays = (\<lambda>_. []),
      nextPoint = 0, nextArray = 0, emitted = []\<rparr>"

section \<open>Auxiliary definitions\<close>

text \<open>The fields that are neither the store nor the visual players.\<close>

definition nonStore :: "game \<Rightarrow> game" where
  "nonStore s = s\<lparr>visualPlayers := Map.empty, points := (\<lambda>_. Blank), arrays := (\<lambda>_. []),
                  nextPoint := 0, nextArray := 0\<rparr>"

text \<open>The ids a diff removes (none when \<open>removed\<close> is absent).\<close>

definition removedIds :: "foodDiff \<Rightarrow> string list" where
  "removedIds d = (case removed d of None \<Rightarrow> [] | Some ids \<Rightarrow> ids)"

text \<open>The entries a diff adds (none when \<open>added\<close> is absent).\<close>

definition addedMap :: "foodDiff \<Rightarrow> (string \<rightharpoonup> foodItem)" where
  "addedMap d = (case added d of None \<Rightarrow> Map.empty | Some a \<Rightarrow> a)"

text \<open>The diff applied in the other order, additions before removals: the order the
  specification says is immaterial.\<close>

definition applyFoodDiffAddFirst :: "foodDiff \<Rightarrow> (string \<rightharpoonup> foodItem) \<Rightarrow> (string \<rightharpoonup> foodItem)" where
  "applyFoodDiffAddFirst d f = fold (\<lambda>fid m. m(fid := None)) (removedIds d) (f ++ addedMap d)"

text \<open>A sequence of events, handled one after the other from a state.\<close>

fun run :: "event list \<Rightarrow> game \<Rightarrow> error + game" where
  "run [] s = Inr s"
| "run (e # es) s = (case handle e s of Inl x \<Rightarrow> Inl x | Inr s' \<Rightarrow> run es s')"

text \<open>Concrete snapshots and states used by the examples below.\<close>

definition exampleMe :: jplayer where
  "exampleMe = \<lparr>jbody = None, jangle = 0, jlength = 2500\<rparr>"

definition exampleTick :: "jplayer \<Rightarrow> tick" where
  "exampleTick jp = \<lparr>tplayers = [(''me'', jp)], tleaderboard = None, food_diff = None\<rparr>"

text \<open>The cull test as the specification words it: the head lies farther from the camera
  than half the viewport (in world units) plus a margin, in either axis.\<close>

definition specCulled :: "real \<Rightarrow> real \<Rightarrow> real \<Rightarrow> game \<Rightarrow> visual \<Rightarrow> bool" where
  "specCulled width height margin s vis =
     (\<bar>vx vis - camX s\<bar> > width / 2 / currentScale s + margin \<or>
      \<bar>vy vis - camY s\<bar> > height / 2 / currentScale s + margin)"

definition exampleScene :: "real \<Rightarrow> real \<Rightarrow> game" where
  "exampleScene hx hy =
     initial\<lparr>players := [(''p'', \<lparr>pbody = Some 0, pangle = 0, plength = 10\<rparr>)],
             visualPlayers := [''p'' \<mapsto> \<lparr>vx = hx, vy = hy, vangle = 0, vbody = 1\<rparr>],
             points := (\<lambda>_. Pt hx hy),
             arrays := (\<lambda>_. [])(0 := [0], 1 := [1]),
             nextPoint := 2, nextArray := 2\<rparr>"

definition exampleFood :: foodItem where
  "exampleFood = \<lparr>fx = 1, fy = 2, fcolor = ''red'', is_loot = False\<rparr>"

definition exampleDiff :: foodDiff where
  "exampleDiff = \<lparr>added = Some [''c'' \<mapsto> exampleFood], removed = Some [''a'', ''zz'']\<rparr>"

definition foodTick :: tick where
  "foodTick = \<lparr>tplayers = [], tleaderboard = None, food_diff = Some exampleDiff\<rparr>"

definition foodState :: game where
  "foodState = initial\<lparr>food := [''a'' \<mapsto> exampleFood, ''b'' \<mapsto> exampleFood]\<rparr>"

definition spectating :: game where
  "spectating = onKeyDown ''s'' ''KeyS'' initial"

text \<open>The object that \<open>{ ...vis.body[vis.body.length - 1] }\<close> copies: the tail of the
  array, or nothing on an empty array.\<close>

definition tailObj :: "game \<Rightarrow> addr \<Rightarrow> pobj" where
  "tailObj s va = (if arrays s va = [] then Blank else points s (last (arrays s va)))"

text \<open>\<open>p.body[0]\<close>, the authoritative head.\<close>

definition authHead :: "game \<Rightarrow> addr \<Rightarrow> pobj" where
  "authHead s pa = (case arrays s pa of [] \<Rightarrow> Blank | h # _ \<Rightarrow> points s h)"

text \<open>A player with a non-empty body that has a visual player, in a well-formed store:
  the visual body is an array of its own, with at least one point, and every point of
  either body is an allocated object with numeric coordinates, no visual point being an
  authoritative one. \<open>updateVisuals\<close> creates and keeps visual players in this
  shape.\<close>

definition tracked :: "game \<Rightarrow> string \<Rightarrow> player \<Rightarrow> addr \<Rightarrow> visual \<Rightarrow> bool" where
  "tracked s pid p pa v \<longleftrightarrow>
     map_of (players s) pid = Some p \<and> pbody p = Some pa \<and> visualPlayers s pid = Some v \<and>
     pa < nextArray s \<and> vbody v < nextArray s \<and> vbody v \<noteq> pa \<and>
     arrays s pa \<noteq> [] \<and> arrays s (vbody v) \<noteq> [] \<and>
     list_all (\<lambda>x. x < nextPoint s \<and> points s x \<noteq> Blank) (arrays s pa) \<and>
     list_all (\<lambda>x. x < nextPoint s \<and> points s x \<noteq> Blank \<and> x \<notin> set (arrays s pa))
       (arrays s (vbody v))"

text \<open>The visual player of \<open>pid\<close> after one iteration of the loop.\<close>

definition visualAfter :: "real \<Rightarrow> string \<Rightarrow> game \<Rightarrow> visual option" where
  "visualAfter dt pid s =
     (case stepPlayer dt pid s of Inl e \<Rightarrow> None | Inr s' \<Rightarrow> visualPlayers s' pid)"

text \<open>A store with one player \<open>p\<close>: an authoritative body of two points with
  the head at \<open>(hx, hy)\<close>, and a visual player with a one-point body.\<close>

definition scene :: "real \<Rightarrow> real \<Rightarrow> real \<Rightarrow> visual \<Rightarrow> game" where
  "scene hx hy ang vis =
     initial\<lparr>players := [(''p'', \<lparr>pbody = Some 0, pangle = ang, plength = 10\<rparr>)],
             visualPlayers := [''p'' \<mapsto> vis],
             points := (\<lambda>_. Blank)(0 := Pt hx hy, 1 := Pt 7 7, 2 := Pt (vx vis) (vy vis)),
             arrays := (\<lambda>_. [])(0 := [0, 1], vbody vis := [2]),
             nextPoint := 3, nextArray := 2\<rparr>"

text \<open>The arrays that are bodies of authoritative players, and the points in them.\<close>

definition authArrays :: "game \<Rightarrow> addr set" where
  "authArrays s = {a. \<exists>pid p. (pid, p) \<in> set (players s) \<and> pbody p = Some a}"

definition authPoints :: "game \<Rightarrow> addr set" where
  "authPoints s = (\<Union>a \<in> authArrays s. set (arrays s a))"

text \<open>The body array of the visual player of \<open>pid\<close>, if there is one, and its points.\<close>

definition vArr :: "game \<Rightarrow> string \<Rightarrow> addr set" where
  "vArr s pid = (case visualPlayers s pid of None \<Rightarrow> {} | Some v \<Rightarrow> {vbody v})"

definition vPts :: "game \<Rightarrow> string \<Rightarrow> addr set" where
  "vPts s pid = (case visualPlayers s pid of None \<Rightarrow> {} | Some v \<Rightarrow> set (arrays s (vbody v)))"

text \<open>The invariant of the store. The keys of \<open>players\<close> are distinct; every
  authoritative body is an allocated array of allocated points with numeric coordinates;
  every visual body is an allocated, non-empty array of such points, is no authoritative
  array and holds no authoritative point; and two visual players share neither their
  array nor a point.\<close>

definition storeInv :: "game \<Rightarrow> bool" where
  "storeInv s \<longleftrightarrow>
     distinct (map fst (players s)) \<and>
     (\<forall>a \<in> authArrays s. a < nextArray s \<and>
        (\<forall>x \<in> set (arrays s a). x < nextPoint s \<and> points s x \<noteq> Blank)) \<and>
     (\<forall>pid. \<forall>a \<in> vArr s pid. a < nextArray s \<and> a \<notin> authArrays s \<and> arrays s a \<noteq> [] \<and>
        (\<forall>x \<in> set (arrays s a). x < nextPoint s \<and> points s x \<noteq> Blank \<and> x \<notin> authPoints s)) \<and>
     (\<forall>pid pid'. pid \<noteq> pid' \<longrightarrow>
        vArr s pid \<inter> vArr s pid' = {} \<and> vPts s pid \<inter> vPts s pid' = {})"

text \<open>What one iteration for \<open>pid\<close> may do to a state: it allocates, it writes to the
  body array and the points of the visual player of \<open>pid\<close> and to nothing else that
  was allocated, it changes no other visual player, and the visual player of \<open>pid\<close>
  ends with a non-empty body of numeric points, each an old point of that body or a new
  one.\<close>

definition visualStep :: "game \<Rightarrow> string \<Rightarrow> game \<Rightarrow> bool" where
  "visualStep s pid s' \<longleftrightarrow>
     nonStore s' = nonStore s \<and> nextPoint s \<le> nextPoint s' \<and> nextArray s \<le> nextArray s' \<and>
     (\<forall>q. q \<noteq> pid \<longrightarrow> visualPlayers s' q = visualPlayers s q) \<and>
     (\<forall>a. a < nextArray s \<and> a \<notin> vArr s pid \<longrightarrow> arrays s' a = arrays s a) \<and>
     (\<forall>x. x < nextPoint s \<and> x \<notin> vPts s pid \<longrightarrow> points s' x = points s x) \<and>
     (\<forall>a \<in> vArr s' pid. a < nextArray s' \<and> (a \<in> vArr s pid \<or> nextArray s \<le> a) \<and>
        arrays s' a \<noteq> [] \<and>
        (\<forall>x \<in> set (arrays s' a). x < nextPoint s' \<and> points s' x \<noteq> Blank \<and>
           (x \<in> vPts s pid \<or> nextPoint s \<le> x)))"

text \<open>The authoritative players of \<open>s\<close> are as they were in \<open>s'\<close>: the same map of
  player records, and for every body the same array of the same points.\<close>

definition authSame :: "game \<Rightarrow> game \<Rightarrow> bool" where
  "authSame s s' \<longleftrightarrow>
     players s' = players s \<and>
     (\<forall>a \<in> authArrays s. arrays s' a = arrays s a \<and>
        (\<forall>x \<in> set (arrays s a). points s' x = points s x))"

text \<open>A store with one player \<open>p\<close> that has a two-point body and no visual player
  yet.\<close>

definition sceneNew :: game where
  "sceneNew =
     initial\<lparr>players := [(''p'', \<lparr>pbody = Some 0, pangle = 3 / 2, plength = 10\<rparr>)],
             points := (\<lambda>_. Blank)(0 := Pt 5 6, 1 := Pt 7 8),
             arrays := (\<lambda>_. [])(0 := [0, 1]),
             nextPoint := 2, nextArray := 1\<rparr>"


text \<open>An event as the transport and the browser can deliver it: the players of a
  snapshot are the entries of an object, so their keys are distinct.\<close>

definition wellFormed :: "event \<Rightarrow> bool" where
  "wellFormed e = (case e of GameTick t sid \<Rightarrow> distinct (map fst (tplayers t)) | _ \<Rightarrow> True)"

text \<open>The states the client can be in: the initial one, with the time stamp that
  \<open>ngOnInit\<close> stores, and every state a handler returns from a reachable one.\<close>

inductive reachable :: "game \<Rightarrow> bool" where
  started: "reachable (initial\<lparr>lastTime := now\<rparr>)"
| handled: "reachable s \<Longrightarrow> wellFormed e \<Longrightarrow> handle e s = Inr s' \<Longrightarrow> reachable s'"

text \<open>The points of every visual body are distinct objects: \<open>body.map\<close> and
  \<open>push({ ...tail })\<close> only ever store newly created objects in a visual body.\<close>

definition bodiesDistinct :: "game \<Rightarrow> bool" where
  "bodiesDistinct s \<longleftrightarrow> (\<forall>pid v. visualPlayers s pid = Some v \<longrightarrow> distinct (arrays s (vbody v)))"

section \<open>Fields outside the store\<close>

lemma nonStore_fields:
  assumes "nonStore s' = nonStore s"
  shows "isConnected s' = isConnected s" "myId s' = myId s" "isDead s' = isDead s"
    "finalScore s' = finalScore s" "playerCount s' = playerCount s" "myScore s' = myScore s"
    "spectateMode s' = spectateMode s" "players s' = players s" "food s' = food s"
    "leaderboard s' = leaderboard s" "camX s' = camX s" "camY s' = camY s"
    "currentScale s' = currentScale s" "targetScale s' = targetScale s"
    "lastTime s' = lastTime s" "driftAngle s' = driftAngle s" "gameConfig s' = gameConfig s"
    "keysPressed s' = keysPressed s" "emitted s' = emitted s"
  using assms unfolding nonStore_def
  by (cases s, cases s', simp)+

lemma nonStore_allocArray: "nonStore (snd (allocArray objs s)) = nonStore s"
  by (simp add: allocArray_def nonStore_def)

lemma nonStore_installPlayers: "nonStore (snd (installPlayers js s)) = nonStore s"
proof (induction js arbitrary: s)
  case Nil
  then show ?case by simp
next
  case (Cons j js)
  obtain pid jp where j: "j = (pid, jp)" by (cases j)
  show ?case
  proof (cases "jbody jp")
    case None
    then show ?thesis using Cons.IH [of s] j by (simp add: split_beta)
  next
    case (Some pts)
    then show ?thesis
      using Cons.IH [of "snd (allocArray (map (\<lambda>(x, y). Pt x y) pts) s)"] j
      by (simp add: split_beta nonStore_allocArray)
  qed
qed

lemma fold_delete: "fold (\<lambda>fid m. m(fid := None)) ids f = f |` (- set ids)"
proof (induction ids arbitrary: f)
  case Nil
  then show ?case by simp
next
  case (Cons i ids)
  show ?case
    unfolding fold_simps Cons.IH
    by (rule ext) (simp add: restrict_map_def)
qed

lemma applyFoodDiff_eq: "applyFoodDiff d f = (f |` (- set (removedIds d))) ++ addedMap d"
  by (auto simp: applyFoodDiff_def removedIds_def addedMap_def fold_delete restrict_map_def
      split: option.splits)

lemma gameTick_food:
  assumes "gameTick t sid s = Inr s'"
  shows "food s' = (case food_diff t of None \<Rightarrow> food s | Some d \<Rightarrow> applyFoodDiff d (food s))"
proof -
  have f: "food (snd (installPlayers (tplayers t) s)) = food s"
    by (rule nonStore_fields(9) [OF nonStore_installPlayers])
  show ?thesis
    using assms f
    by (auto simp: gameTick_def Let_def split_beta split: option.splits if_splits sum.splits)
qed

text \<open>C5 (game\_tick, food diff). A tick with a food diff leaves the food map equal to the
  prior map with every removed id deleted, merged with the added entries (an absent part
  counts as empty); removing an id that is not present changes nothing; and when the added
  and removed ids are disjoint, applying the additions first and the removals second gives
  the same map.\<close>

theorem food_diff_applied:
  assumes "gameTick t sid s = Inr s'" and "food_diff t = Some d"
  shows "food s' = (food s |` (- set (removedIds d))) ++ addedMap d
       \<and> (\<forall>fid. food s fid = None \<longrightarrow>
             applyFoodDiff \<lparr>added = None, removed = Some [fid]\<rparr> (food s) = food s)
       \<and> (dom (addedMap d) \<inter> set (removedIds d) = {} \<longrightarrow>
             applyFoodDiffAddFirst d (food s) = food s')"
proof -
  have 1: "food s' = (food s |` (- set (removedIds d))) ++ addedMap d"
    using gameTick_food [OF assms(1)] assms(2) by (simp add: applyFoodDiff_eq)
  have 2: "\<forall>fid. food s fid = None \<longrightarrow>
             applyFoodDiff \<lparr>added = None, removed = Some [fid]\<rparr> (food s) = food s"
    by (auto simp: applyFoodDiff_def)
  have 3: "applyFoodDiffAddFirst d (food s) = food s'"
    if "dom (addedMap d) \<inter> set (removedIds d) = {}"
  proof (rule ext)
    fix k
    show "applyFoodDiffAddFirst d (food s) k = food s' k"
      using that unfolding 1 applyFoodDiffAddFirst_def fold_delete
      by (auto simp: restrict_map_def map_add_def split: option.splits)
  qed
  from 1 2 3 show ?thesis by blast
qed

lemma nonStore_pushTailCopy: "nonStore (pushTailCopy va s) = nonStore s"
  by (simp add: pushTailCopy_def nonStore_def Let_def)

lemma nonStore_popTail: "nonStore (popTail va s) = nonStore s"
  by (simp add: popTail_def nonStore_def)

lemma nonStore_growBody: "nonStore (growBody pa va s) = nonStore s"
proof (induction pa va s rule: growBody.induct)
  case (1 pa va s)
  show ?case
    using 1 by (subst growBody.simps) (simp add: nonStore_pushTailCopy)
qed

lemma nonStore_shrinkBody: "nonStore (shrinkBody pa va s) = nonStore s"
proof (induction pa va s rule: shrinkBody.induct)
  case (1 pa va s)
  show ?case
    using 1 by (subst shrinkBody.simps) (simp add: nonStore_popTail)
qed

lemma nonStore_reconcile: "nonStore (reconcile pa va s) = nonStore s"
  by (simp add: reconcile_def nonStore_shrinkBody nonStore_growBody)

lemma nonStore_lerpPoint: "lerpPoint ls pa va i s = Inr s' \<Longrightarrow> nonStore s' = nonStore s"
  by (auto simp: lerpPoint_def Let_def nonStore_def split: if_splits pobj.splits)

lemma nonStore_lerpBody: "lerpBody ls pa va i s = Inr s' \<Longrightarrow> nonStore s' = nonStore s"
proof (induction ls pa va i s rule: lerpBody.induct)
  case (1 ls pa va i s)
  show ?case
  proof (cases "i < length (arrays s pa)")
    case True
    then obtain s1 where s1: "lerpPoint ls pa va i s = Inr s1"
      and r: "lerpBody ls pa va (Suc i) s1 = Inr s'"
      using "1.prems" by (subst (asm) lerpBody.simps) (auto split: sum.splits)
    from "1.IH" [OF True s1 r] nonStore_lerpPoint [OF s1] show ?thesis by simp
  next
    case False
    then show ?thesis using "1.prems" by (subst (asm) lerpBody.simps) simp
  qed
qed

lemma nonStore_visualPlayers_update [simp]:
  "nonStore (s\<lparr>visualPlayers := m\<rparr>) = nonStore s"
  by (simp add: nonStore_def)

lemma nonStore_copyBody: "nonStore (snd (copyBody pa s)) = nonStore s"
  by (simp add: copyBody_def nonStore_allocArray)

lemma nonStore_createVisual: "createVisual pid p pa s = Inr s' \<Longrightarrow> nonStore s' = nonStore s"
  using nonStore_copyBody [of pa s]
  by (auto simp: createVisual_def split_beta split: list.splits pobj.splits)

lemma nonStore_interpolate: "interpolate dt pid p pa s = Inr s' \<Longrightarrow> nonStore s' = nonStore s"
  using nonStore_copyBody [of pa s]
  by (auto simp: interpolate_def split_beta Let_def
      split: option.splits list.splits pobj.splits if_splits dest!: nonStore_lerpBody)

lemma nonStore_stepPlayer: "stepPlayer dt pid s = Inr s' \<Longrightarrow> nonStore s' = nonStore s"
  by (auto simp: stepPlayer_def nonStore_reconcile
      split: option.splits if_splits sum.splits
      dest!: nonStore_interpolate nonStore_createVisual)

lemma nonStore_forPlayers: "forPlayers dt pids s = Inr s' \<Longrightarrow> nonStore s' = nonStore s"
proof (induction pids arbitrary: s)
  case Nil
  then show ?case by simp
next
  case (Cons pid pids)
  then show ?case by (auto split: sum.splits dest!: nonStore_stepPlayer)
qed

lemma nonStore_updatePlayers: "updatePlayers dt s = Inr s' \<Longrightarrow> nonStore s' = nonStore s"
  by (auto simp: updatePlayers_def cleanup_def dest!: nonStore_forPlayers)

lemma updateCamera_isDead: "updateCamera dt s = Inr s' \<Longrightarrow> isDead s' = isDead s"
  by (auto simp: updateCamera_def updateSpectatorMovement_def Let_def
      split: if_splits sum.splits option.splits)

lemma updateVisuals_isDead: "updateVisuals dt s = Inr s' \<Longrightarrow> isDead s' = isDead s"
  by (auto simp: updateVisuals_def split: sum.splits
      dest!: nonStore_updatePlayers updateCamera_isDead nonStore_fields(3))

lemma gameTick_isDead: "gameTick t sid s = Inr s' \<Longrightarrow> isDead s' = isDead s"
  using nonStore_fields(3) [OF nonStore_installPlayers, of "tplayers t" s]
  by (auto simp: gameTick_def Let_def split_beta split: option.splits if_splits sum.splits)

text \<open>C7, as amended (state machine). A transition from dead to alive happens only on the
  server's \<open>init_player\<close> or on the local key \<open>s\<close> pressed while in spectator
  mode; that key press leaves spectator mode, emits \<open>request_respawn\<close> and sets the
  target scale to 1.0. No other event or input handler sets \<open>isDead\<close> to false.\<close>

theorem alive_only_by_init_player_or_toggle:
  assumes "handle e s = Inr s'" and "isDead s" and "\<not> isDead s'"
  shows "(\<exists>pid. e = InitPlayer pid) \<or>
         (\<exists>key code. e = KeyDown key code \<and> toLowerCase key = ''s'' \<and> spectateMode s
            \<and> \<not> spectateMode s' \<and> targetScale s' = 1
            \<and> emitted s' = emitted s @ RequestRespawn #
                 (if code = ''Space'' \<and> myId s \<noteq> [] then [BoostUpdate True] else []))"
proof (cases e)
  case (GameTick t sid)
  then show ?thesis using assms gameTick_isDead by auto
next
  case (Frame now)
  then show ?thesis using assms updateVisuals_isDead [of _ "s\<lparr>lastTime := now\<rparr>" s'] by auto
next
  case (KeyDown key code)
  then show ?thesis
    using assms
    by (auto simp: onKeyDown_def Let_def emit_def cheatBoost_def startBoost_def
        split: if_splits)
qed (use assms in \<open>auto simp: Let_def onMouseMove_def startBoost_def endBoost_def emit_def
       onKeyUp_def onWheel_def split: if_splits\<close>)

lemma lower_s: "toLowerCase ''s'' = ''s''"
  by (simp add: toLowerCase_def lowerChar_def)

text \<open>C7 as stated fails: two presses of \<open>s\<close> from the initial state, with no
  \<open>init_player\<close> in between, leave the client dead after the first and alive after
  the second, with \<open>request_respawn\<close> emitted and the target scale at 1.\<close>

theorem spectator_toggle_revives:
  "map_sum id isDead (run [KeyDown ''s'' ''KeyS''] initial) = Inr True \<and>
   map_sum id isDead (run [KeyDown ''s'' ''KeyS'', KeyDown ''s'' ''KeyS''] initial) = Inr False \<and>
   map_sum id emitted (run [KeyDown ''s'' ''KeyS'', KeyDown ''s'' ''KeyS''] initial)
     = Inr [EnterSpectator, RequestRespawn] \<and>
   map_sum id targetScale (run [KeyDown ''s'' ''KeyS'', KeyDown ''s'' ''KeyS''] initial) = Inr 1"
  by (simp add: onKeyDown_def lower_s Let_def emit_def initial_def cheatBoost_def startBoost_def)

lemma zoom_mono:
  fixes b d l1 l2 :: real
  assumes "0 < d" "0 \<le> l1" "l1 \<le> l2"
  shows "max 0.4 (b / (1 + l2 / d)) \<le> max 0.4 (b / (1 + l1 / d))"
proof (cases "0 \<le> b")
  case True
  have "l1 / d \<le> l2 / d" using assms by (simp add: divide_right_mono)
  moreover have "0 < 1 + l1 / d" using assms by (simp add: add_pos_nonneg)
  ultimately have "b / (1 + l2 / d) \<le> b / (1 + l1 / d)"
    using True by (intro divide_left_mono) (auto simp: add_pos_nonneg intro!: mult_pos_pos)
  then show ?thesis by simp
next
  case False
  have "0 < 1 + l2 / d" using assms by (simp add: add_pos_nonneg)
  then have "b / (1 + l2 / d) < 0" using False by (simp add: divide_neg_pos)
  then show ?thesis by simp
qed

lemma gameTick_target:
  assumes "gameTick t sid s = Inr s'" and "map_of (players s') (myId s') = Some me"
    and "\<not> isDead s"
  shows "zoomTarget (gameConfig s) (plength me) = Inr (targetScale s')"
proof -
  let ?s0 = "snd (installPlayers (tplayers t) s)"
  have f: "isDead ?s0 = isDead s" "gameConfig ?s0 = gameConfig s"
    using nonStore_fields [OF nonStore_installPlayers, of "tplayers t" s] by simp_all
  show ?thesis
    using assms f
    by (auto simp: gameTick_def Let_def split_beta split: option.splits if_splits sum.splits)
qed

lemma gameTick_error:
  assumes "gameTick t sid s = Inl e"
  shows "e = NonFinite \<and> \<not> isDead s
       \<and> (\<exists>me. map_of (fst (installPlayers (tplayers t) s))
                   (if myId s = [] \<and> sid \<noteq> [] then sid else myId s) = Some me
              \<and> 1 + plength me / orDefault (ZOOM_DAMPENER (gameConfig s)) 2500 = 0
              \<and> 0 < orDefault (ZOOM_BASE (gameConfig s)) 1.8)"
proof -
  let ?s0 = "snd (installPlayers (tplayers t) s)"
  have f: "isDead ?s0 = isDead s" "gameConfig ?s0 = gameConfig s" "myId ?s0 = myId s"
    using nonStore_fields [OF nonStore_installPlayers, of "tplayers t" s] by simp_all
  show ?thesis
    using assms f
    by (auto simp: gameTick_def zoomTarget_def Let_def split_beta
        split: option.splits if_splits sum.splits)
qed

lemma orDefault_cases:
  "orDefault None d = d" "orDefault (Some 0) d = d" "b \<noteq> 0 \<Longrightarrow> orDefault (Some b) d = b"
  by (simp_all add: orDefault_def)

lemma orDefault_nonzero: "d \<noteq> 0 \<Longrightarrow> orDefault v d \<noteq> 0"
  by (simp add: orDefault_def split: option.splits)

text \<open>C6, as amended (game\_tick, target scale). On every tick where the local player
  exists and is not dead the target scale becomes \<open>max 0.4 (B / (1 + length / D))\<close>,
  where \<open>B\<close> is the configured \<open>ZOOM_BASE\<close> and \<open>D\<close> the configured
  \<open>ZOOM_DAMPENER\<close> when these are non-zero numbers, and the built-in 1.8 and 2500
  when the constant is absent or zero (with a zero denominator the target is the floor
  0.4, for a negative \<open>B\<close>). The target is never below 0.4; at length 0 it is
  \<open>max 0.4 B\<close>, that is \<open>B\<close> when \<open>B \<ge> 0.4\<close>; and for a positive
  \<open>D\<close> the target is monotonically non-increasing over the non-negative lengths.\<close>

theorem zoom_target_scale:
  fixes s s' :: game and me :: player and t :: tick and sid :: string
  defines "B \<equiv> orDefault (ZOOM_BASE (gameConfig s)) 1.8"
    and "D \<equiv> orDefault (ZOOM_DAMPENER (gameConfig s)) 2500"
  assumes "gameTick t sid s = Inr s'" and "map_of (players s') (myId s') = Some me"
    and "\<not> isDead s"
  shows "(1 + plength me / D \<noteq> 0 \<longrightarrow> targetScale s' = max 0.4 (B / (1 + plength me / D)))
       \<and> (1 + plength me / D = 0 \<longrightarrow> targetScale s' = 0.4 \<and> B < 0)
       \<and> (\<forall>b. ZOOM_BASE (gameConfig s) = Some b \<and> b \<noteq> 0 \<longrightarrow> B = b)
       \<and> (ZOOM_BASE (gameConfig s) = None \<or> ZOOM_BASE (gameConfig s) = Some 0 \<longrightarrow> B = 1.8)
       \<and> (\<forall>d. ZOOM_DAMPENER (gameConfig s) = Some d \<and> d \<noteq> 0 \<longrightarrow> D = d)
       \<and> (ZOOM_DAMPENER (gameConfig s) = None \<or> ZOOM_DAMPENER (gameConfig s) = Some 0
            \<longrightarrow> D = 2500)
       \<and> 0.4 \<le> targetScale s'
       \<and> (plength me = 0 \<longrightarrow> targetScale s' = max 0.4 B)
       \<and> (\<forall>l1 l2. 0 < D \<and> 0 \<le> l1 \<and> l1 \<le> l2 \<longrightarrow>
             zoomTarget (gameConfig s) l1 = Inr (max 0.4 (B / (1 + l1 / D)))
             \<and> zoomTarget (gameConfig s) l2 = Inr (max 0.4 (B / (1 + l2 / D)))
             \<and> max 0.4 (B / (1 + l2 / D)) \<le> max 0.4 (B / (1 + l1 / D)))"
proof -
  have z: "zoomTarget (gameConfig s) (plength me) = Inr (targetScale s')"
    by (rule gameTick_target [OF assms(3-5)])
  have B0: "B \<noteq> 0" unfolding B_def by (rule orDefault_nonzero) simp
  have 1: "targetScale s' = max 0.4 (B / (1 + plength me / D))" if "1 + plength me / D \<noteq> 0"
    using z that by (simp add: zoomTarget_def Let_def B_def D_def)
  have 2: "targetScale s' = 0.4 \<and> B < 0" if "1 + plength me / D = 0"
    using z that B0 by (auto simp: zoomTarget_def Let_def B_def D_def split: if_splits)
  have 3: "\<forall>b. ZOOM_BASE (gameConfig s) = Some b \<and> b \<noteq> 0 \<longrightarrow> B = b"
    by (simp add: B_def orDefault_def)
  have 4: "ZOOM_BASE (gameConfig s) = None \<or> ZOOM_BASE (gameConfig s) = Some 0 \<longrightarrow> B = 1.8"
    by (auto simp: B_def orDefault_def)
  have 5: "\<forall>d. ZOOM_DAMPENER (gameConfig s) = Some d \<and> d \<noteq> 0 \<longrightarrow> D = d"
    by (simp add: D_def orDefault_def)
  have 6: "ZOOM_DAMPENER (gameConfig s) = None \<or> ZOOM_DAMPENER (gameConfig s) = Some 0
            \<longrightarrow> D = 2500"
    by (auto simp: D_def orDefault_def)
  have 7: "0.4 \<le> targetScale s'"
    using 1 2 by (cases "1 + plength me / D = 0") simp_all
  have 8: "targetScale s' = max 0.4 B" if "plength me = 0"
    using 1 that by simp
  have 9: "zoomTarget (gameConfig s) l1 = Inr (max 0.4 (B / (1 + l1 / D)))
         \<and> zoomTarget (gameConfig s) l2 = Inr (max 0.4 (B / (1 + l2 / D)))
         \<and> max 0.4 (B / (1 + l2 / D)) \<le> max 0.4 (B / (1 + l1 / D))"
    if h: "0 < D" "0 \<le> l1" "l1 \<le> l2" for l1 l2
  proof -
    have p: "0 < 1 + l / D" if "0 \<le> l" for l using that h(1) by (simp add: add_pos_nonneg)
    have a: "zoomTarget (gameConfig s) l = Inr (max 0.4 (B / (1 + l / D)))" if "0 \<le> l" for l
      using p [OF that] by (simp add: zoomTarget_def Let_def B_def D_def)
    have l2: "0 \<le> l2" using h(2,3) by simp
    show ?thesis using a [OF h(2)] a [OF l2] zoom_mono [OF h] by blast
  qed
  show ?thesis using 1 2 3 4 5 6 7 8 9 by blast
qed

text \<open>C6 at concrete inputs: with the constants 1.8 and 2500 supplied, and with
  \<open>ZOOM_BASE\<close> absent and \<open>ZOOM_DAMPENER\<close> zero, a length of 2500 gives the
  target 0.9.\<close>

theorem zoom_target_scale_witness:
  "map_sum id targetScale (gameTick (exampleTick exampleMe) ''me'' initial) = Inr 0.9
   \<and> map_sum id targetScale
       (gameTick (exampleTick exampleMe) ''me''
          (initial\<lparr>gameConfig := \<lparr>MAP_SIZE = 5000, DEBUG_MODE = False, ZOOM_BASE = None,
                                   ZOOM_DAMPENER = Some 0\<rparr>\<rparr>)) = Inr 0.9"
proof -
  define s0 where "s0 = initial\<lparr>gameConfig := \<lparr>MAP_SIZE = 5000, DEBUG_MODE = False,
      ZOOM_BASE = None, ZOOM_DAMPENER = Some 0\<rparr>\<rparr>"
  define me where "me = \<lparr>pbody = None, pangle = 0, plength = 2500\<rparr>"
  obtain s' where s': "gameTick (exampleTick exampleMe) ''me'' initial = Inr s'"
    by (simp add: gameTick_def exampleTick_def exampleMe_def initial_def zoomTarget_def
        orDefault_def Let_def)
  have m: "map_of (players s') (myId s') = Some me"
    using s'
    by (auto simp: gameTick_def exampleTick_def exampleMe_def initial_def zoomTarget_def
        orDefault_def Let_def me_def)
  obtain s2 where s2: "gameTick (exampleTick exampleMe) ''me'' s0 = Inr s2"
    by (simp add: gameTick_def exampleTick_def exampleMe_def initial_def zoomTarget_def
        orDefault_def Let_def s0_def)
  have m2: "map_of (players s2) (myId s2) = Some me"
    using s2
    by (auto simp: gameTick_def exampleTick_def exampleMe_def initial_def zoomTarget_def
        orDefault_def Let_def me_def s0_def)
  have a: "\<not> isDead initial" "\<not> isDead s0" by (simp_all add: initial_def s0_def)
  have c: "orDefault (ZOOM_BASE (gameConfig initial)) 1.8 = 1.8"
    "orDefault (ZOOM_DAMPENER (gameConfig initial)) 2500 = 2500"
    "orDefault (ZOOM_BASE (gameConfig s0)) 1.8 = 1.8"
    "orDefault (ZOOM_DAMPENER (gameConfig s0)) 2500 = 2500"
    by (simp_all add: initial_def s0_def orDefault_def)
  have l: "plength me = 2500" by (simp add: me_def)
  have "targetScale s' = 0.9"
    using zoom_target_scale [OF s' m a(1)] unfolding c l by simp
  moreover have "targetScale s2 = 0.9"
    using zoom_target_scale [OF s2 m2 a(2)] unfolding c l by simp
  ultimately show ?thesis using s' s2 unfolding s0_def by simp
qed

text \<open>C6 as stated fails: with a supplied \<open>ZOOM_BASE\<close> of 0.2 the target at length
  0 is the floor 0.4, not \<open>ZOOM_BASE\<close>; a supplied \<open>ZOOM_BASE\<close> of 0 is
  replaced by the built-in 1.8; with a negative dampener the target grows with the
  length; and at the floor the target no longer decreases (lengths 10000 and 20000 both
  give 0.4).\<close>

theorem zoom_target_scale_counterexample:
  "map_sum id targetScale
     (run [InitConfig \<lparr>MAP_SIZE = 5000, DEBUG_MODE = False, ZOOM_BASE = Some 0.2,
                       ZOOM_DAMPENER = Some 2500\<rparr>,
           GameTick (exampleTick \<lparr>jbody = None, jangle = 0, jlength = 0\<rparr>) ''me''] initial)
     = Inr 0.4
   \<and> zoomTarget \<lparr>MAP_SIZE = 5000, DEBUG_MODE = False, ZOOM_BASE = Some 0,
                 ZOOM_DAMPENER = Some 2500\<rparr> 0 = Inr 1.8
   \<and> zoomTarget \<lparr>MAP_SIZE = 5000, DEBUG_MODE = False, ZOOM_BASE = Some 1.8,
                 ZOOM_DAMPENER = Some (- 2500)\<rparr> 0 = Inr 1.8
   \<and> zoomTarget \<lparr>MAP_SIZE = 5000, DEBUG_MODE = False, ZOOM_BASE = Some 1.8,
                 ZOOM_DAMPENER = Some (- 2500)\<rparr> 1250 = Inr 3.6
   \<and> zoomTarget (gameConfig initial) 10000 = Inr 0.4
   \<and> zoomTarget (gameConfig initial) 20000 = Inr 0.4"
  by (simp add: gameTick_def exampleTick_def initial_def zoomTarget_def orDefault_def Let_def)

text \<open>C8, as amended (render, snake loop). A player that passes the earlier tests of the
  loop (not the dead local player, a visual with a non-empty body) is skipped exactly when
  the horizontal distance of its visual head from the camera exceeds the full viewport
  width in world units, \<open>width / currentScale\<close>, plus 200 (with a scale of zero
  nothing is skipped).\<close>

theorem player_culled_iff:
  assumes "pid \<in> set (map fst (players s))" and "\<not> (isDead s \<and> pid = myId s)"
    and "visualPlayers s pid = Some vis" and "arrays s (vbody vis) \<noteq> []"
  shows "pid \<notin> set (renderPlayers width s)
         \<longleftrightarrow> currentScale s \<noteq> 0 \<and> \<bar>vx vis - camX s\<bar> > width / currentScale s + 200"
  using assms by (auto simp: renderPlayers_def culled_def)

text \<open>C8 as stated fails: a head 700 units to the right of the camera is beyond half of an
  800-wide viewport plus the margin 200 and is drawn; a head 5000 units below the camera
  is beyond the viewport in the vertical axis and is drawn.\<close>

theorem player_culled_iff_counterexample:
  "specCulled 800 600 200 (exampleScene 700 0) \<lparr>vx = 700, vy = 0, vangle = 0, vbody = 1\<rparr>
   \<and> ''p'' \<in> set (renderPlayers 800 (exampleScene 700 0))
   \<and> specCulled 800 600 200 (exampleScene 0 5000) \<lparr>vx = 0, vy = 5000, vangle = 0, vbody = 1\<rparr>
   \<and> ''p'' \<in> set (renderPlayers 800 (exampleScene 0 5000))"
  by (simp add: specCulled_def exampleScene_def initial_def renderPlayers_def culled_def)

theorem player_culled_iff_witness:
  "''p'' \<notin> set (renderPlayers 800 (exampleScene 1200 0))
   \<and> \<bar>vx \<lparr>vx = 1200, vy = 0, vangle = 0, vbody = 1\<rparr> - camX (exampleScene 1200 0)\<bar>
        > 800 / currentScale (exampleScene 1200 0) + 200"
proof -
  have a: "''p'' \<in> set (map fst (players (exampleScene 1200 0)))"
    by (simp add: exampleScene_def)
  have b: "\<not> (isDead (exampleScene 1200 0) \<and> ''p'' = myId (exampleScene 1200 0))"
    by (simp add: exampleScene_def initial_def)
  have c: "visualPlayers (exampleScene 1200 0) ''p''
          = Some \<lparr>vx = 1200, vy = 0, vangle = 0, vbody = 1\<rparr>"
    by (simp add: exampleScene_def)
  have d: "arrays (exampleScene 1200 0) (vbody \<lparr>vx = 1200, vy = 0, vangle = 0, vbody = 1\<rparr>) \<noteq> []"
    by (simp add: exampleScene_def)
  have f: "\<bar>vx \<lparr>vx = 1200, vy = 0, vangle = 0, vbody = 1\<rparr> - camX (exampleScene 1200 0)\<bar>
        > 800 / currentScale (exampleScene 1200 0) + 200"
    by (simp add: exampleScene_def initial_def)
  have e: "currentScale (exampleScene 1200 0) \<noteq> 0"
    by (simp add: exampleScene_def initial_def)
  from player_culled_iff [OF a b c d, of 800] e f show ?thesis by simp
qed

theorem food_diff_applied_witness:
  "map_sum id (\<lambda>s'. (food s' ''a'', food s' ''b'', food s' ''c'', food s' ''zz''))
      (gameTick foodTick [] foodState)
     = Inr (None, Some exampleFood, Some exampleFood, None)
   \<and> applyFoodDiffAddFirst exampleDiff (food foodState) ''a'' = None
   \<and> applyFoodDiffAddFirst exampleDiff (food foodState) ''c'' = Some exampleFood"
proof -
  obtain s' where s': "gameTick foodTick [] foodState = Inr s'"
    by (simp add: gameTick_def foodTick_def foodState_def initial_def Let_def)
  have d: "food_diff foodTick = Some exampleDiff" by (simp add: foodTick_def)
  have dis: "dom (addedMap exampleDiff) \<inter> set (removedIds exampleDiff) = {}"
    by (simp add: addedMap_def removedIds_def exampleDiff_def)
  from food_diff_applied [OF s' d] dis
  have 1: "food s' = (food foodState |` (- set (removedIds exampleDiff))) ++ addedMap exampleDiff"
    and 2: "applyFoodDiffAddFirst exampleDiff (food foodState) = food s'"
    by blast+
  have 3: "food s' ''a'' = None" "food s' ''b'' = Some exampleFood"
    "food s' ''c'' = Some exampleFood" "food s' ''zz'' = None"
    unfolding 1
    by (simp_all add: foodState_def addedMap_def removedIds_def exampleDiff_def
        restrict_map_def map_add_def)
  show ?thesis using s' 2 3 by simp
qed

text \<open>C7 at a concrete input: the key \<open>S\<close> pressed in spectator mode.\<close>

theorem alive_only_by_init_player_or_toggle_witness:
  "handle (KeyDown ''S'' ''KeyS'') spectating = Inr (onKeyDown ''S'' ''KeyS'' spectating)
   \<and> isDead spectating \<and> \<not> isDead (onKeyDown ''S'' ''KeyS'' spectating)
   \<and> toLowerCase ''S'' = ''s'' \<and> spectateMode spectating
   \<and> \<not> spectateMode (onKeyDown ''S'' ''KeyS'' spectating)
   \<and> targetScale (onKeyDown ''S'' ''KeyS'' spectating) = 1
   \<and> emitted (onKeyDown ''S'' ''KeyS'' spectating) = [EnterSpectator, RequestRespawn]"
proof -
  have l: "toLowerCase ''S'' = ''s''" by (simp add: toLowerCase_def lowerChar_def)
  have h1: "handle (KeyDown ''S'' ''KeyS'') spectating = Inr (onKeyDown ''S'' ''KeyS'' spectating)"
    by simp
  have h2: "isDead spectating"
    by (simp add: spectating_def onKeyDown_def lower_s Let_def emit_def initial_def
        cheatBoost_def startBoost_def)
  have sp: "spectateMode spectating"
    by (simp add: spectating_def onKeyDown_def lower_s Let_def emit_def initial_def
        cheatBoost_def startBoost_def)
  have em: "emitted spectating = [EnterSpectator]"
    by (simp add: spectating_def onKeyDown_def lower_s Let_def emit_def initial_def
        cheatBoost_def startBoost_def)
  have h3: "\<not> isDead (onKeyDown ''S'' ''KeyS'' spectating)"
    using sp by (simp add: onKeyDown_def l Let_def emit_def cheatBoost_def startBoost_def)
  from alive_only_by_init_player_or_toggle [OF h1 h2 h3]
  have "\<not> spectateMode (onKeyDown ''S'' ''KeyS'' spectating)
      \<and> targetScale (onKeyDown ''S'' ''KeyS'' spectating) = 1
      \<and> emitted (onKeyDown ''S'' ''KeyS'' spectating) = emitted spectating @ [RequestRespawn]"
    by auto
  then show ?thesis using l sp h1 h2 h3 em by simp
qed

section \<open>Effects of the store operations\<close>

lemma storeAll_apply:
  "storeAll f n vs a = (if n \<le> a \<and> a < n + length vs then vs ! (a - n) else f a)"
proof (induction vs arbitrary: f n)
  case Nil
  then show ?case by auto
next
  case (Cons v vs)
  show ?case
    unfolding storeAll.simps Cons.IH
    by (auto simp: nth_Cons' Suc_diff_Suc)
qed

lemma allocArray_effect:
  assumes "allocArray objs s = (a, s')"
  shows "a = nextArray s" "nextArray s' = Suc (nextArray s)"
    "nextPoint s' = nextPoint s + length objs"
    "arrays s' = (arrays s)(nextArray s := [nextPoint s ..< nextPoint s + length objs])"
    "\<And>x. x < nextPoint s \<Longrightarrow> points s' x = points s x"
    "map (points s') [nextPoint s ..< nextPoint s + length objs] = objs"
    "visualPlayers s' = visualPlayers s"
  using assms
  by (auto simp: allocArray_def storeAll_apply intro!: nth_equalityI)

lemma pushTailCopy_effect:
  "arrays (pushTailCopy va s) = (arrays s)(va := arrays s va @ [nextPoint s])"
  "nextPoint (pushTailCopy va s) = Suc (nextPoint s)"
  "nextArray (pushTailCopy va s) = nextArray s"
  "visualPlayers (pushTailCopy va s) = visualPlayers s"
  "points (pushTailCopy va s) =
     (points s)(nextPoint s := (if arrays s va = [] then Blank else points s (last (arrays s va))))"
  by (simp_all add: pushTailCopy_def Let_def)

lemma growBody_effect:
  assumes "va \<noteq> pa"
  shows "(\<forall>a. arrays (growBody pa va s) a =
           (if a = va then arrays s va @
              [nextPoint s ..< nextPoint s + (length (arrays s pa) - length (arrays s va))]
            else arrays s a))
       \<and> nextPoint (growBody pa va s)
            = nextPoint s + (length (arrays s pa) - length (arrays s va))
       \<and> nextArray (growBody pa va s) = nextArray s
       \<and> visualPlayers (growBody pa va s) = visualPlayers s
       \<and> (\<forall>x. x < nextPoint s \<longrightarrow> points (growBody pa va s) x = points s x)
       \<and> (\<forall>x. nextPoint s \<le> x \<and> x < nextPoint (growBody pa va s)
              \<longrightarrow> points (growBody pa va s) x = tailObj s va)"
  using assms
proof (induction pa va s rule: growBody.induct)
  case (1 pa va s)
  show ?case
  proof (cases "length (arrays s va) < length (arrays s pa)")
    case False
    then have "growBody pa va s = s" by (subst growBody.simps) simp
    then show ?thesis using False by auto
  next
    case True
    define s1 where "s1 = pushTailCopy va s"
    define n where "n = nextPoint s"
    define k where "k = length (arrays s pa) - length (arrays s va)"
    have g: "growBody pa va s = growBody pa va s1"
      using True unfolding s1_def by (subst growBody.simps) simp
    have a1: "\<And>a. arrays s1 a = (if a = va then arrays s va @ [n] else arrays s a)"
      and n1: "nextPoint s1 = Suc n" and na1: "nextArray s1 = nextArray s"
      and v1: "visualPlayers s1 = visualPlayers s"
      and p1: "points s1 = (points s)(n := tailObj s va)"
      unfolding s1_def n_def tailObj_def by (simp_all add: pushTailCopy_effect)
    have t1: "tailObj s1 va = tailObj s va"
      by (simp add: tailObj_def a1 p1)
    have k1: "length (arrays s1 pa) - length (arrays s1 va) = k - 1"
      using "1.prems" by (simp add: a1 k_def)
    have kpos: "0 < k" using True by (simp add: k_def)
    have e1: "Suc n + (k - 1) = n + k" using kpos by simp
    have e2: "[n ..< n + k] = n # [Suc n ..< n + k]"
      using kpos by (simp add: upt_conv_Cons)
    have ih: "\<And>a. arrays (growBody pa va s1) a =
           (if a = va then arrays s1 va @ [Suc n ..< n + k] else arrays s1 a)"
      "nextPoint (growBody pa va s1) = n + k"
      "nextArray (growBody pa va s1) = nextArray s1"
      "visualPlayers (growBody pa va s1) = visualPlayers s1"
      "\<And>x. x < Suc n \<Longrightarrow> points (growBody pa va s1) x = points s1 x"
      "\<And>x. Suc n \<le> x \<Longrightarrow> x < n + k \<Longrightarrow> points (growBody pa va s1) x = tailObj s va"
      using "1.IH" [OF True "1.prems"] unfolding s1_def [symmetric] n1 k1 e1 t1
      by simp_all
    have c1: "arrays (growBody pa va s) a
          = (if a = va then arrays s va @ [n ..< n + k] else arrays s a)" for a
      unfolding g ih(1) a1 e2 by simp
    have c2: "nextPoint (growBody pa va s) = n + k" unfolding g ih(2) ..
    have c3: "nextArray (growBody pa va s) = nextArray s" unfolding g ih(3) na1 ..
    have c4: "visualPlayers (growBody pa va s) = visualPlayers s" unfolding g ih(4) v1 ..
    have c5: "points (growBody pa va s) x = points s x" if "x < n" for x
      unfolding g using ih(5) [of x] that by (simp add: p1)
    have c6: "points (growBody pa va s) x = tailObj s va" if "n \<le> x" "x < n + k" for x
    proof (cases "x = n")
      case True
      then show ?thesis unfolding g using ih(5) [of x] by (simp add: p1)
    next
      case False
      then show ?thesis unfolding g using ih(6) [of x] that by simp
    qed
    show ?thesis
      using c1 c2 c3 c4 c5 c6 unfolding n_def k_def by simp
  qed
qed

lemma shrinkBody_effect:
  assumes "va \<noteq> pa"
  shows "(\<forall>a. arrays (shrinkBody pa va s) a
           = (if a = va then take (length (arrays s pa)) (arrays s va) else arrays s a))
       \<and> points (shrinkBody pa va s) = points s
       \<and> nextPoint (shrinkBody pa va s) = nextPoint s
       \<and> nextArray (shrinkBody pa va s) = nextArray s
       \<and> visualPlayers (shrinkBody pa va s) = visualPlayers s"
  using assms
proof (induction pa va s rule: shrinkBody.induct)
  case (1 pa va s)
  show ?case
  proof (cases "length (arrays s va) > length (arrays s pa)")
    case False
    then have "shrinkBody pa va s = s" by (subst shrinkBody.simps) simp
    then show ?thesis using False by simp
  next
    case True
    define s1 where "s1 = popTail va s"
    have g: "shrinkBody pa va s = shrinkBody pa va s1"
      using True unfolding s1_def by (subst shrinkBody.simps) simp
    have a1: "\<And>a. arrays s1 a = (if a = va then butlast (arrays s va) else arrays s a)"
      and o1: "points s1 = points s" "nextPoint s1 = nextPoint s"
        "nextArray s1 = nextArray s" "visualPlayers s1 = visualPlayers s"
      unfolding s1_def by (simp_all add: popTail_def)
    have tk: "take (length (arrays s pa)) (butlast (arrays s va))
            = take (length (arrays s pa)) (arrays s va)"
      using True by (simp add: take_butlast)
    note ih = "1.IH" [OF True "1.prems", unfolded s1_def [symmetric]]
    show ?thesis
      unfolding g using ih "1.prems" by (simp add: a1 o1 tk)
  qed
qed

lemma reconcile_same: "reconcile pa pa s = s"
  by (simp add: reconcile_def growBody.simps shrinkBody.simps)

lemma reconcile_effect:
  fixes pa va :: addr and s :: game
  assumes ne: "va \<noteq> pa"
  defines "s' \<equiv> reconcile pa va s"
  defines "k \<equiv> length (arrays s pa) - length (arrays s va)"
  shows "\<And>a. arrays s' a = (if a = va then take (length (arrays s pa)) (arrays s va)
                                      @ [nextPoint s ..< nextPoint s + k] else arrays s a)"
    and "nextPoint s' = nextPoint s + k"
    and "nextArray s' = nextArray s"
    and "visualPlayers s' = visualPlayers s"
    and "\<And>x. x < nextPoint s \<Longrightarrow> points s' x = points s x"
    and "\<And>x. nextPoint s \<le> x \<Longrightarrow> x < nextPoint s + k \<Longrightarrow> points s' x = tailObj s va"
proof -
  define g where "g = growBody pa va s"
  note ge = growBody_effect [OF ne, of s, unfolded g_def [symmetric] k_def [symmetric]]
  note se = shrinkBody_effect [OF ne, of g]
  have s': "s' = shrinkBody pa va g" unfolding s'_def reconcile_def g_def ..
  have "take (length (arrays s pa))
          (arrays s va @ [nextPoint s ..< nextPoint s + k])
        = take (length (arrays s pa)) (arrays s va) @ [nextPoint s ..< nextPoint s + k]"
    by (simp add: k_def)
  then show "\<And>a. arrays s' a = (if a = va then take (length (arrays s pa)) (arrays s va)
                                      @ [nextPoint s ..< nextPoint s + k] else arrays s a)"
    unfolding s' using se ge ne by simp
  show "nextPoint s' = nextPoint s + k" unfolding s' using se ge by simp
  show "nextArray s' = nextArray s" unfolding s' using se ge by simp
  show "visualPlayers s' = visualPlayers s" unfolding s' using se ge by simp
  show "\<And>x. x < nextPoint s \<Longrightarrow> points s' x = points s x" unfolding s' using se ge by simp
  show "\<And>x. nextPoint s \<le> x \<Longrightarrow> x < nextPoint s + k \<Longrightarrow> points s' x = tailObj s va"
    unfolding s' using se ge by simp
qed

lemma reconcile_length:
  "length (arrays (reconcile pa va s) va) = length (arrays (reconcile pa va s) pa)"
proof (cases "va = pa")
  case True
  then show ?thesis by simp
next
  case False
  show ?thesis
    using False by (simp add: reconcile_effect(1) [OF False])
qed

lemma lerpPoint_effect:
  assumes "lerpPoint ls pa va i s = Inr s'"
  shows "arrays s' = arrays s" "nextPoint s' = nextPoint s" "nextArray s' = nextArray s"
    "visualPlayers s' = visualPlayers s"
    "\<And>x. x \<noteq> arrays s va ! i \<Longrightarrow> points s' x = points s x"
    "\<And>x. points s x \<noteq> Blank \<Longrightarrow> points s' x \<noteq> Blank"
    "i < length (arrays s va)"
  using assms
  by (auto simp: lerpPoint_def Let_def split: if_splits pobj.splits)

lemma lerpBody_effect:
  "lerpBody ls pa va i s = Inr s' \<Longrightarrow>
     arrays s' = arrays s \<and> nextPoint s' = nextPoint s \<and> nextArray s' = nextArray s
     \<and> visualPlayers s' = visualPlayers s
     \<and> (\<forall>x. x \<notin> set (arrays s va) \<longrightarrow> points s' x = points s x)
     \<and> (\<forall>x. points s x \<noteq> Blank \<longrightarrow> points s' x \<noteq> Blank)"
proof (induction ls pa va i s rule: lerpBody.induct)
  case (1 ls pa va i s)
  show ?case
  proof (cases "i < length (arrays s pa)")
    case False
    then show ?thesis using "1.prems" by (subst (asm) lerpBody.simps) simp
  next
    case True
    then obtain s1 where s1: "lerpPoint ls pa va i s = Inr s1"
      and r: "lerpBody ls pa va (Suc i) s1 = Inr s'"
      using "1.prems" by (subst (asm) lerpBody.simps) (auto split: sum.splits)
    note e = lerpPoint_effect [OF s1]
    note ih = "1.IH" [OF True s1 r]
    have mem: "arrays s va ! i \<in> set (arrays s va)" using e(7) by simp
    show ?thesis
      using ih e(1-4) e(5,6) mem by (metis)
  qed
qed

lemma lerpPoint_total:
  assumes "i < length (arrays s pa)" "i < length (arrays s va)"
    and "\<forall>x \<in> set (arrays s pa) \<union> set (arrays s va). points s x \<noteq> Blank"
  shows "\<exists>s'. lerpPoint ls pa va i s = Inr s'"
proof -
  have "points s (arrays s pa ! i) \<noteq> Blank" "points s (arrays s va ! i) \<noteq> Blank"
    using assms by simp_all
  then show ?thesis
    using assms(2) by (auto simp: lerpPoint_def Let_def split: pobj.splits)
qed

lemma lerpBody_total:
  "length (arrays s pa) \<le> length (arrays s va) \<Longrightarrow>
   \<forall>x \<in> set (arrays s pa) \<union> set (arrays s va). points s x \<noteq> Blank \<Longrightarrow>
   \<exists>s'. lerpBody ls pa va i s = Inr s'"
proof (induction ls pa va i s rule: lerpBody.induct)
  case (1 ls pa va i s)
  show ?case
  proof (cases "i < length (arrays s pa)")
    case False
    then show ?thesis by (subst lerpBody.simps) simp
  next
    case True
    then have iv: "i < length (arrays s va)" using "1.prems"(1) by simp
    obtain s1 where s1: "lerpPoint ls pa va i s = Inr s1"
      using lerpPoint_total [OF True iv "1.prems"(2)] by blast
    note e = lerpPoint_effect [OF s1]
    have "\<exists>s'. lerpBody ls pa va (Suc i) s1 = Inr s'"
    proof (rule "1.IH" [OF True s1])
      show "length (arrays s1 pa) \<le> length (arrays s1 va)"
        using "1.prems"(1) by (simp add: e(1))
      show "\<forall>x \<in> set (arrays s1 pa) \<union> set (arrays s1 va). points s1 x \<noteq> Blank"
        using "1.prems"(2) e(6) by (simp add: e(1))
    qed
    then show ?thesis using True s1 by (subst lerpBody.simps) simp
  qed
qed

lemma lerpPoint_fixed:
  assumes "i < length (arrays s va)"
    and "points s (arrays s va ! i) = points s (arrays s pa ! i)"
    and "points s (arrays s pa ! i) \<noteq> Blank"
  shows "lerpPoint ls pa va i s = Inr s"
proof -
  obtain a b where p: "points s (arrays s pa ! i) = Pt a b"
    using assms(3) by (cases "points s (arrays s pa ! i)") auto
  have "(points s)(arrays s va ! i := Pt a b) = points s"
    using assms(2) p by (simp add: fun_upd_idem)
  then show ?thesis
    using assms(1,2) p by (simp add: lerpPoint_def Let_def)
qed

lemma lerpBody_fixed:
  "\<forall>j. i \<le> j \<and> j < length (arrays s pa) \<longrightarrow>
        j < length (arrays s va) \<and> points s (arrays s va ! j) = points s (arrays s pa ! j)
        \<and> points s (arrays s pa ! j) \<noteq> Blank \<Longrightarrow>
   lerpBody ls pa va i s = Inr s"
proof (induction ls pa va i s rule: lerpBody.induct)
  case (1 ls pa va i s)
  show ?case
  proof (cases "i < length (arrays s pa)")
    case False
    then show ?thesis by (subst lerpBody.simps) simp
  next
    case True
    have s1: "lerpPoint ls pa va i s = Inr s"
      using "1.prems" True by (intro lerpPoint_fixed) auto
    have "lerpBody ls pa va (Suc i) s = Inr s"
      using "1.prems" by (intro "1.IH" [OF True s1]) auto
    then show ?thesis using True s1 by (subst lerpBody.simps) simp
  qed
qed

section \<open>One iteration for a tracked player\<close>

lemma hypot_zero [simp]: "hypot 0 0 = 0"
  by (simp add: hypot_def)

lemma hypot_nonneg [simp]: "0 \<le> hypot a b"
  by (simp add: hypot_def)



lemma stepPlayer_tracked:
  assumes "map_of (players s) pid = Some p" "pbody p = Some pa" "arrays s pa \<noteq> []"
    "visualPlayers s pid = Some v"
  shows "stepPlayer dt pid s = interpolate dt pid p pa (reconcile pa (vbody v) s)"
  using assms by (simp add: stepPlayer_def)

lemma tracked_reconcile:
  assumes t: "tracked s pid p pa v"
  defines "r \<equiv> reconcile pa (vbody v) s"
  shows "visualPlayers r = visualPlayers s" "arrays r pa = arrays s pa"
    "nextArray r = nextArray s" "nextPoint s \<le> nextPoint r"
    "\<And>x. x < nextPoint s \<Longrightarrow> points r x = points s x"
    "length (arrays r (vbody v)) = length (arrays s pa)"
    "\<forall>x \<in> set (arrays r (vbody v)). x < nextPoint r \<and> points r x \<noteq> Blank
         \<and> x \<notin> set (arrays s pa)"
    "set (arrays r (vbody v)) \<subseteq> set (arrays s (vbody v)) \<union> {nextPoint s ..< nextPoint r}"
    "\<And>a. a \<noteq> vbody v \<Longrightarrow> arrays r a = arrays s a"
proof -
  have ne: "vbody v \<noteq> pa" using t by (simp add: tracked_def)
  note e = reconcile_effect [OF ne, where s = s, unfolded r_def [symmetric]]
  have vb: "arrays s (vbody v) \<noteq> []"
    and tv: "\<forall>x \<in> set (arrays s (vbody v)). x < nextPoint s \<and> points s x \<noteq> Blank
                \<and> x \<notin> set (arrays s pa)"
    and tp: "\<forall>x \<in> set (arrays s pa). x < nextPoint s \<and> points s x \<noteq> Blank"
    using t by (simp_all add: tracked_def list_all_iff)
  have tl: "tailObj s (vbody v) \<noteq> Blank"
    using vb tv by (simp add: tailObj_def)
  show "visualPlayers r = visualPlayers s" by (rule e(4))
  show "arrays r pa = arrays s pa" using ne by (simp add: e(1))
  show "nextArray r = nextArray s" by (rule e(3))
  show "nextPoint s \<le> nextPoint r" by (simp add: e(2))
  show "\<And>x. x < nextPoint s \<Longrightarrow> points r x = points s x" by (rule e(5))
  show "length (arrays r (vbody v)) = length (arrays s pa)" by (simp add: e(1))
  show "\<And>a. a \<noteq> vbody v \<Longrightarrow> arrays r a = arrays s a" by (simp add: e(1))
  show "set (arrays r (vbody v)) \<subseteq> set (arrays s (vbody v)) \<union> {nextPoint s ..< nextPoint r}"
    using set_take_subset [of "length (arrays s pa)" "arrays s (vbody v)"]
    by (auto simp: e(1) e(2))
  show "\<forall>x \<in> set (arrays r (vbody v)). x < nextPoint r \<and> points r x \<noteq> Blank
         \<and> x \<notin> set (arrays s pa)"
  proof
    fix x assume "x \<in> set (arrays r (vbody v))"
    then consider "x \<in> set (arrays s (vbody v))"
      | "nextPoint s \<le> x" "x < nextPoint s + (length (arrays s pa) - length (arrays s (vbody v)))"
      using set_take_subset [of "length (arrays s pa)" "arrays s (vbody v)"]
      by (auto simp: e(1))
    then show "x < nextPoint r \<and> points r x \<noteq> Blank \<and> x \<notin> set (arrays s pa)"
    proof cases
      case 1
      then show ?thesis using tv e(5) [of x] by (auto simp: e(2))
    next
      case 2
      then show ?thesis using tl tp e(6) [of x] by (auto simp: e(2))
    qed
  qed
qed

lemma authHead_Pt:
  "authHead s pa = Pt tx ty \<Longrightarrow> \<exists>h t. arrays s pa = h # t \<and> points s h = Pt tx ty"
  by (auto simp: authHead_def split: list.splits)


lemma stepPlayer_lerp:
  assumes t: "tracked s pid p pa v" and h: "authHead s pa = Pt tx ty"
    and d: "\<not> hypot (tx - vx v) (ty - vy v) > 500"
  shows "\<exists>s'. stepPlayer dt pid s = Inr s'
      \<and> visualPlayers s' = (visualPlayers s)
            (pid \<mapsto> v\<lparr>vx := vx v + (tx - vx v) * (10 * dt),
                        vy := vy v + (ty - vy v) * (10 * dt),
                        vangle := vangle v + wrapAngle (pangle p - vangle v) * (10 * dt)\<rparr>)
      \<and> arrays s' pa = arrays s pa
      \<and> (\<forall>x \<in> set (arrays s pa). points s' x = points s x)
      \<and> length (arrays s' (vbody v)) = length (arrays s pa)
      \<and> nextArray s' = nextArray s"
proof -
  define r where "r = reconcile pa (vbody v) s"
  note tr = tracked_reconcile [OF t, unfolded r_def [symmetric]]
  have tf: "map_of (players s) pid = Some p" "pbody p = Some pa" "arrays s pa \<noteq> []"
    "visualPlayers s pid = Some v" "pa < nextArray s"
    and tp: "\<forall>x \<in> set (arrays s pa). x < nextPoint s \<and> points s x \<noteq> Blank"
    using t by (simp_all add: tracked_def list_all_iff)
  obtain hd tl where ht: "arrays s pa = hd # tl" "points s hd = Pt tx ty"
    using authHead_Pt [OF h] by blast
  have hr: "arrays r pa = hd # tl" "points r hd = Pt tx ty"
    using ht tp tr(2) tr(5) [of hd] by simp_all
  have vr: "visualPlayers r pid = Some v" using tf(4) by (simp add: tr(1))
  define v' where "v' = v\<lparr>vx := vx v + (tx - vx v) * (10 * dt),
                        vy := vy v + (ty - vy v) * (10 * dt),
                        vangle := vangle v + wrapAngle (pangle p - vangle v) * (10 * dt)\<rparr>"
  define m where "m = r\<lparr>visualPlayers := (visualPlayers r)(pid \<mapsto> v')\<rparr>"
  have step: "stepPlayer dt pid s = lerpBody (10 * dt) pa (vbody v) 0 m"
    unfolding stepPlayer_tracked [OF tf(1-4)] r_def [symmetric] interpolate_def m_def v'_def
    using vr hr d by (simp add: Let_def)
  have len: "length (arrays m pa) \<le> length (arrays m (vbody v))"
    by (simp add: m_def tr(2) tr(6))
  have typed: "\<forall>x \<in> set (arrays m pa) \<union> set (arrays m (vbody v)). points m x \<noteq> Blank"
    using tr(7) tp tr(5) by (auto simp: m_def tr(2))
  obtain s' where s': "lerpBody (10 * dt) pa (vbody v) 0 m = Inr s'"
    using lerpBody_total [OF len typed] by blast
  note le = lerpBody_effect [OF s']
  have 1: "visualPlayers s' = (visualPlayers s)(pid \<mapsto> v')"
    using le by (simp add: m_def tr(1))
  have 2: "arrays s' pa = arrays s pa" using le by (simp add: m_def tr(2))
  have 3: "\<forall>x \<in> set (arrays s pa). points s' x = points s x"
  proof
    fix x assume x: "x \<in> set (arrays s pa)"
    then have "x \<notin> set (arrays m (vbody v))" using tr(7) by (auto simp: m_def)
    then have "points s' x = points m x" using le by simp
    then show "points s' x = points s x" using x tp tr(5) by (simp add: m_def)
  qed
  have 4: "length (arrays s' (vbody v)) = length (arrays s pa)"
    using le by (simp add: m_def tr(6))
  have 5: "nextArray s' = nextArray s" using le by (simp add: m_def tr(3))
  from step s' 1 2 3 4 5 show ?thesis unfolding v'_def by simp
qed

section \<open>The angle wrap\<close>

lemma wrapDown_le: "wrapDown d \<le> pi"
  by (induction d rule: wrapDown.induct) (subst wrapDown.simps, simp)

lemma wrapDown_ge: "- pi \<le> d \<Longrightarrow> - pi \<le> wrapDown d"
proof (induction d rule: wrapDown.induct)
  case (1 d)
  show ?case
  proof (cases "d > pi")
    case True
    then have "- pi \<le> d - pi * 2" by simp
    from "1.IH" [OF True this] True show ?thesis by (subst wrapDown.simps) simp
  next
    case False
    then show ?thesis using "1.prems" by (subst wrapDown.simps) simp
  qed
qed

lemma wrapDown_id: "d \<le> pi \<Longrightarrow> wrapDown d = d"
  by (subst wrapDown.simps) simp

lemma wrapDown_mod: "\<exists>k::int. wrapDown d = d + 2 * pi * of_int k"
proof (induction d rule: wrapDown.induct)
  case (1 d)
  show ?case
  proof (cases "d > pi")
    case True
    from "1.IH" [OF True] obtain k :: int where "wrapDown (d - pi * 2) = d - pi * 2 + 2 * pi * of_int k"
      by blast
    then have "wrapDown d = d + 2 * pi * of_int (k - 1)"
      using True by (subst wrapDown.simps) (simp add: algebra_simps)
    then show ?thesis by blast
  next
    case False
    then have "wrapDown d = d + 2 * pi * of_int 0" by (subst wrapDown.simps) simp
    then show ?thesis by blast
  qed
qed

lemma wrapUp_ge: "- pi \<le> wrapUp d"
  by (induction d rule: wrapUp.induct) (subst wrapUp.simps, simp)

lemma wrapUp_le: "d \<le> pi \<Longrightarrow> wrapUp d \<le> pi"
proof (induction d rule: wrapUp.induct)
  case (1 d)
  show ?case
  proof (cases "d < - pi")
    case True
    then have "d + pi * 2 \<le> pi" by simp
    from "1.IH" [OF True this] True show ?thesis by (subst wrapUp.simps) simp
  next
    case False
    then show ?thesis using "1.prems" by (subst wrapUp.simps) simp
  qed
qed

lemma wrapUp_id: "- pi \<le> d \<Longrightarrow> wrapUp d = d"
  by (subst wrapUp.simps) simp

lemma wrapUp_mod: "\<exists>k::int. wrapUp d = d + 2 * pi * of_int k"
proof (induction d rule: wrapUp.induct)
  case (1 d)
  show ?case
  proof (cases "d < - pi")
    case True
    from "1.IH" [OF True] obtain k :: int where "wrapUp (d + pi * 2) = d + pi * 2 + 2 * pi * of_int k"
      by blast
    then have "wrapUp d = d + 2 * pi * of_int (k + 1)"
      using True by (subst wrapUp.simps) (simp add: algebra_simps)
    then show ?thesis by blast
  next
    case False
    then have "wrapUp d = d + 2 * pi * of_int 0" by (subst wrapUp.simps) simp
    then show ?thesis by blast
  qed
qed

lemma wrapAngle_range: "- pi \<le> wrapAngle d" "wrapAngle d \<le> pi"
  by (simp_all add: wrapAngle_def wrapUp_ge wrapUp_le wrapDown_le)

lemma wrapAngle_mod: "\<exists>k::int. wrapAngle d = d + 2 * pi * of_int k"
proof -
  obtain j :: int where j: "wrapDown d = d + 2 * pi * of_int j" using wrapDown_mod by blast
  obtain k :: int where k: "wrapUp (wrapDown d) = wrapDown d + 2 * pi * of_int k"
    using wrapUp_mod by blast
  have "wrapAngle d = wrapDown d + 2 * pi * of_int k" by (simp add: wrapAngle_def k)
  then have "wrapAngle d = d + 2 * pi * of_int (j + k)"
    unfolding j by (simp add: algebra_simps)
  then show ?thesis by blast
qed

lemma wrapAngle_id: "- pi \<le> d \<Longrightarrow> d \<le> pi \<Longrightarrow> wrapAngle d = d"
  by (simp add: wrapAngle_def wrapDown_id wrapUp_id)

lemma int_between: 
  fixes m :: int
  assumes "- (2 * pi) \<le> 2 * pi * of_int m" "2 * pi * of_int m \<le> 2 * pi"
  shows "m = -1 \<or> m = 0 \<or> m = 1"
proof -
  have pos: "0 < 2 * pi" by simp
  have "2 * pi * of_int m \<le> 2 * pi * 1" using assms(2) by simp
  then have "(of_int m :: real) \<le> 1"
    by (simp only: mult_le_cancel_left_pos [OF pos])
  moreover have "2 * pi * (- 1) \<le> 2 * pi * of_int m" using assms(1) by simp
  then have "(- 1 :: real) \<le> of_int m"
    by (simp only: mult_le_cancel_left_pos [OF pos])
  ultimately have "m \<le> 1" "- 1 \<le> m" by linarith+
  then show ?thesis by arith
qed

lemma wrapAngle_abs:
  assumes "\<bar>x\<bar> \<le> pi"
  shows "\<bar>wrapAngle (x + 2 * pi * of_int k)\<bar> = \<bar>x\<bar>"
proof -
  obtain j :: int where j: "wrapAngle (x + 2 * pi * of_int k) = x + 2 * pi * of_int k + 2 * pi * of_int j"
    using wrapAngle_mod by blast
  define y where "y = wrapAngle (x + 2 * pi * of_int k)"
  define m where "m = k + j"
  have y: "y = x + 2 * pi * of_int m" unfolding y_def j m_def by (simp add: algebra_simps)
  have r: "- pi \<le> y" "y \<le> pi" unfolding y_def by (rule wrapAngle_range)+
  have "- (2 * pi) \<le> 2 * pi * of_int m" "2 * pi * of_int m \<le> 2 * pi"
    using r assms unfolding y by linarith+
  then consider "m = -1" | "m = 0" | "m = 1" using int_between by blast
  then have "\<bar>y\<bar> = \<bar>x\<bar>"
  proof cases
    case 1
    then show ?thesis using r assms unfolding y by simp
  next
    case 2
    then show ?thesis unfolding y by simp
  next
    case 3
    then show ?thesis using r assms unfolding y by simp
  qed
  then show ?thesis unfolding y_def .
qed

lemma wrapAngle_after_step:
  assumes "0 \<le> t" "t \<le> 2"
  shows "\<bar>wrapAngle (d - wrapAngle d * t)\<bar> \<le> \<bar>wrapAngle d\<bar>"
proof -
  define w where "w = wrapAngle d"
  obtain k :: int where k: "w = d + 2 * pi * of_int k" unfolding w_def using wrapAngle_mod by blast
  have wr: "\<bar>w\<bar> \<le> pi" unfolding w_def using wrapAngle_range [of d] by simp
  have "\<bar>1 - t\<bar> \<le> 1" using assms by simp
  then have le: "\<bar>w * (1 - t)\<bar> \<le> \<bar>w\<bar>"
    unfolding abs_mult using mult_left_le [of "\<bar>1 - t\<bar>" "\<bar>w\<bar>"] by simp
  have "d - w * t = w * (1 - t) + 2 * pi * of_int (- k)"
    using k by (simp add: algebra_simps)
  then have "\<bar>wrapAngle (d - w * t)\<bar> = \<bar>w * (1 - t)\<bar>"
    using wrapAngle_abs [of "w * (1 - t)" "- k"] le wr by simp
  then show ?thesis using le unfolding w_def by simp
qed

lemma pi_gt_31: "pi > 31 / 10"
proof -
  have c: "cos (2 * (pi / 12)) = 1 - 2 * (sin (pi / 12))\<^sup>2"
    by (rule cos_double_sin)
  have "cos (2 * (pi / 12)) = cos (pi / 6)" by simp
  then have "cos (pi / 6) = 1 - 2 * (sin (pi / 12))\<^sup>2" using c by simp
  moreover have "\<And>(a::real) (b::real) (s::real). a = 1 - 2 * s \<Longrightarrow> a = b / 2 \<Longrightarrow> s = (1 - b / 2) / 2"
    by (auto simp: field_simps)
  ultimately have s2: "(sin (pi / 12))\<^sup>2 = (1 - sqrt 3 / 2) / 2"
    using cos_30 by blast
  have "sqrt 3 < 17321 / 10000"
    by (rule real_less_lsqrt) (simp_all add: power2_eq_square)
  then have "(1 - sqrt 3 / 2) / 2 > (2584 / 10000)\<^sup>2"
    by (simp add: power2_eq_square)
  then have "(sin (pi / 12))\<^sup>2 > (2584 / 10000)\<^sup>2" using s2 by simp
  moreover have "sin (pi / 12) \<ge> 0" by (rule sin_ge_zero) simp_all
  ultimately have "sin (pi / 12) > 2584 / 10000"
    using power2_less_imp_less by fastforce
  moreover have "sin (pi / 12) \<le> pi / 12" by (rule sin_x_le_x) simp
  ultimately show ?thesis by simp
qed

section \<open>Head interpolation, teleport snap, angle and length reconciliation\<close>

lemma scene_tracked:
  "tracked (scene hx hy ang \<lparr>vx = a, vy = b, vangle = c, vbody = 1\<rparr>) ''p''
     \<lparr>pbody = Some 0, pangle = ang, plength = 10\<rparr> 0 \<lparr>vx = a, vy = b, vangle = c, vbody = 1\<rparr>"
  by (simp add: tracked_def scene_def)

lemma scene_head:
  "authHead (scene hx hy ang \<lparr>vx = a, vy = b, vangle = c, vbody = 1\<rparr>) 0 = Pt hx hy"
  by (simp add: authHead_def scene_def)

lemma visualAfter_lerp:
  assumes "tracked s pid p pa v" and "authHead s pa = Pt tx ty"
    and "\<not> hypot (tx - vx v) (ty - vy v) > 500"
  shows "visualAfter dt pid s =
      Some (v\<lparr>vx := vx v + (tx - vx v) * (10 * dt),
              vy := vy v + (ty - vy v) * (10 * dt),
              vangle := vangle v + wrapAngle (pangle p - vangle v) * (10 * dt)\<rparr>)"
  using stepPlayer_lerp [OF assms, of dt] by (auto simp: visualAfter_def)



text \<open>C4, as amended (updateVisuals, angle interpolation). In the interpolation branch
  the visual angle moves by \<open>10 * dt\<close> times the wrapped difference; the wrapped
  difference lies in the closed interval \<open>[-\<pi>, \<pi>]\<close> and differs from the raw
  difference by a multiple of \<open>2\<pi>\<close>, so that across the boundary the angle takes the
  short arc; and for \<open>0 \<le> dt \<le> 0.2\<close> the wrapped difference after the step is no
  larger in magnitude than the one before.\<close>

theorem angle_interpolation_step:
  assumes "tracked s pid p pa v" and "authHead s pa = Pt tx ty"
    and "hypot (tx - vx v) (ty - vy v) \<le> 500"
  shows "\<exists>s' v'. stepPlayer dt pid s = Inr s' \<and> visualPlayers s' pid = Some v'
      \<and> vangle v' = vangle v + wrapAngle (pangle p - vangle v) * (10 * dt)
      \<and> - pi \<le> wrapAngle (pangle p - vangle v) \<and> wrapAngle (pangle p - vangle v) \<le> pi
      \<and> (\<exists>k::int. wrapAngle (pangle p - vangle v) = pangle p - vangle v + 2 * pi * of_int k)
      \<and> (0 \<le> dt \<and> dt \<le> 0.2
           \<longrightarrow> \<bar>wrapAngle (pangle p - vangle v')\<bar> \<le> \<bar>wrapAngle (pangle p - vangle v)\<bar>)"
proof -
  have nd: "\<not> hypot (tx - vx v) (ty - vy v) > 500" using assms(3) by simp
  define v' where "v' = v\<lparr>vx := vx v + (tx - vx v) * (10 * dt),
                        vy := vy v + (ty - vy v) * (10 * dt),
                        vangle := vangle v + wrapAngle (pangle p - vangle v) * (10 * dt)\<rparr>"
  obtain s' where st: "stepPlayer dt pid s = Inr s'"
    and vp: "visualPlayers s' = (visualPlayers s)(pid \<mapsto> v')"
    using stepPlayer_lerp [OF assms(1,2) nd, of dt] unfolding v'_def by blast
  have 1: "visualPlayers s' pid = Some v'" by (simp add: vp)
  have 2: "vangle v' = vangle v + wrapAngle (pangle p - vangle v) * (10 * dt)"
    by (simp add: v'_def)
  have 3: "\<bar>wrapAngle (pangle p - vangle v')\<bar> \<le> \<bar>wrapAngle (pangle p - vangle v)\<bar>"
    if "0 \<le> dt" "dt \<le> 0.2"
  proof -
    have e: "pangle p - vangle v'
        = (pangle p - vangle v) - wrapAngle (pangle p - vangle v) * (10 * dt)"
      unfolding 2 by simp
    show ?thesis
      unfolding e by (rule wrapAngle_after_step) (use that in simp_all)
  qed
  show ?thesis
    using st 1 2 3 wrapAngle_range [of "pangle p - vangle v"]
      wrapAngle_mod [of "pangle p - vangle v"]
    by (intro exI [of _ s'] exI [of _ v']) simp
qed

lemma wrapAngle_across: "wrapAngle (- 31 / 10 - 31 / 10) = 2 * pi - 62 / 10"
proof -
  have a: "- 31 / 10 - 31 / 10 \<le> pi" using pi_gt_zero by linarith
  have b: "- 31 / 10 - 31 / 10 < - pi" using pi_less_4 by linarith
  have c: "- pi \<le> - 31 / 10 - 31 / 10 + pi * 2" using pi_gt_31 by linarith
  have "wrapUp (- 31 / 10 - 31 / 10) = wrapUp (- 31 / 10 - 31 / 10 + pi * 2)"
    using b by (subst wrapUp.simps) simp
  also have "\<dots> = - 31 / 10 - 31 / 10 + pi * 2" by (rule wrapUp_id [OF c])
  finally show ?thesis unfolding wrapAngle_def wrapDown_id [OF a] by simp
qed

text \<open>C4 at the specification's example: authoritative angle \<open>-3.1\<close>, visual angle
  \<open>3.1\<close>. The wrapped difference is \<open>2\<pi> - 6.2\<close>, positive, so the visual angle
  grows towards \<open>\<pi>\<close>, the short way.\<close>

theorem angle_interpolation_step_witness:
  "tracked (scene 0 0 (- 31 / 10) \<lparr>vx = 0, vy = 0, vangle = 31 / 10, vbody = 1\<rparr>) ''p''
     \<lparr>pbody = Some 0, pangle = - 31 / 10, plength = 10\<rparr> 0
     \<lparr>vx = 0, vy = 0, vangle = 31 / 10, vbody = 1\<rparr>
   \<and> hypot (0 - 0) (0 - 0) \<le> 500
   \<and> map_option vangle
        (visualAfter 0.01 ''p'' (scene 0 0 (- 31 / 10) \<lparr>vx = 0, vy = 0, vangle = 31 / 10, vbody = 1\<rparr>))
       = Some (31 / 10 + (2 * pi - 62 / 10) * (10 * 0.01))
   \<and> 31 / 10 < 31 / 10 + (2 * pi - 62 / 10) * (10 * 0.01)"
proof -
  define v where "v = \<lparr>vx = 0, vy = 0, vangle = 31 / 10, vbody = 1\<rparr>"
  define s where "s = scene 0 0 (- 31 / 10) v"
  define p where "p = \<lparr>pbody = Some 0, pangle = - 31 / 10, plength = 10\<rparr>"
  have t: "tracked s ''p'' p 0 v"
    unfolding s_def v_def p_def by (rule scene_tracked)
  have h: "authHead s 0 = Pt 0 0" unfolding s_def v_def by (rule scene_head)
  have d: "hypot (0 - vx v) (0 - vy v) \<le> 500" by (simp add: v_def)
  from angle_interpolation_step [OF t h d, of "0.01"]
  obtain s' v' where "stepPlayer 0.01 ''p'' s = Inr s'" "visualPlayers s' ''p'' = Some v'"
    "vangle v' = vangle v + wrapAngle (pangle p - vangle v) * (10 * 0.01)" by blast
  then have "map_option vangle (visualAfter 0.01 ''p'' s)
      = Some (31 / 10 + (2 * pi - 62 / 10) * (10 * 0.01))"
    using wrapAngle_across by (simp add: visualAfter_def p_def v_def)
  moreover have "31 / 10 < 31 / 10 + (2 * pi - 62 / 10) * (10 * 0.01)"
    using pi_gt_31 by simp
  ultimately show ?thesis using t d unfolding s_def v_def p_def by simp
qed

text \<open>C4 as stated fails: a raw difference of exactly \<open>-\<pi>\<close> is left at \<open>-\<pi>\<close>,
  outside \<open>(-\<pi>, \<pi>]\<close>; and with \<open>dt = 1.1\<close> a visual angle 0 under an
  authoritative angle 0.1 moves to 1.1, which turns the wrapped difference 0.1 into
  \<open>-1\<close>.\<close>

theorem angle_interpolation_step_counterexample:
  "wrapAngle (0 - pi) = - pi
   \<and> wrapAngle (1 / 10 - 0) = 1 / 10
   \<and> map_option vangle
        (visualAfter 1.1 ''p'' (scene 0 0 (1 / 10) \<lparr>vx = 0, vy = 0, vangle = 0, vbody = 1\<rparr>))
       = Some (11 / 10)
   \<and> wrapAngle (1 / 10 - 11 / 10) = - 1"
proof -
  define v where "v = \<lparr>vx = 0, vy = 0, vangle = 0, vbody = 1\<rparr>"
  define s where "s = scene 0 0 (1 / 10) v"
  define p where "p = \<lparr>pbody = Some 0, pangle = 1 / 10, plength = 10\<rparr>"
  have t: "tracked s ''p'' p 0 v"
    unfolding s_def v_def p_def by (rule scene_tracked)
  have h: "authHead s 0 = Pt 0 0" unfolding s_def v_def by (rule scene_head)
  have d: "\<not> hypot (0 - vx v) (0 - vy v) > 500" by (simp add: v_def)
  have w1: "wrapAngle (0 - pi) = - pi" by (simp add: wrapAngle_id)
  have w2: "wrapAngle (1 / 10 - 0) = 1 / 10"
    using pi_ge_two wrapAngle_id [of "1 / 10"] by simp
  have w3: "wrapAngle (1 / 10 - 11 / 10) = - 1"
    using pi_ge_two wrapAngle_id [of "- 1"] by simp
  have a: "map_option vangle (visualAfter 1.1 ''p'' s) = Some (11 / 10)"
    unfolding visualAfter_lerp [OF t h d] using w2 by (simp add: v_def p_def)
  show ?thesis using w1 w2 w3 a unfolding s_def v_def by simp
qed




section \<open>The store invariant and the loop over the players\<close>

lemma inv_tracked:
  assumes "storeInv s" "map_of (players s) pid = Some p" "pbody p = Some pa" "arrays s pa \<noteq> []"
    "visualPlayers s pid = Some v"
  shows "tracked s pid p pa v"
proof -
  have mem: "pa \<in> authArrays s"
    using assms(2,3) by (auto simp: authArrays_def dest: map_of_SomeD)
  have va: "vbody v \<in> vArr s pid" using assms(5) by (simp add: vArr_def)
  have b: "pa < nextArray s" "\<forall>x \<in> set (arrays s pa). x < nextPoint s \<and> points s x \<noteq> Blank"
    using assms(1) mem unfolding storeInv_def by blast+
  have c: "vbody v < nextArray s" "vbody v \<notin> authArrays s" "arrays s (vbody v) \<noteq> []"
    "\<forall>x \<in> set (arrays s (vbody v)). x < nextPoint s \<and> points s x \<noteq> Blank \<and> x \<notin> authPoints s"
    using assms(1) va unfolding storeInv_def by blast+
  have "\<forall>x \<in> set (arrays s (vbody v)). x \<notin> set (arrays s pa)"
    using c(4) mem by (auto simp: authPoints_def)
  then show ?thesis
    using assms(2-5) b c mem unfolding tracked_def list_all_iff by auto
qed

lemma tracked_head: "tracked s pid p pa v \<Longrightarrow> \<exists>tx ty. authHead s pa = Pt tx ty"
  by (cases "arrays s pa"; cases "points s (hd (arrays s pa))")
     (auto simp: tracked_def authHead_def)

lemma stepPlayer_tracked_step:
  assumes t: "tracked s pid p pa v"
  shows "\<exists>s'. stepPlayer dt pid s = Inr s' \<and> visualStep s pid s'"
proof -
  obtain tx ty where h: "authHead s pa = Pt tx ty" using tracked_head [OF t] by blast
  define r where "r = reconcile pa (vbody v) s"
  note tr = tracked_reconcile [OF t, unfolded r_def [symmetric]]
  have tf: "map_of (players s) pid = Some p" "pbody p = Some pa" "arrays s pa \<noteq> []"
    "visualPlayers s pid = Some v" "pa < nextArray s" "vbody v < nextArray s"
    and tp: "\<forall>x \<in> set (arrays s pa). x < nextPoint s \<and> points s x \<noteq> Blank"
    using t by (simp_all add: tracked_def list_all_iff)
  obtain hd tl where ht: "arrays s pa = hd # tl" "points s hd = Pt tx ty"
    using authHead_Pt [OF h] by blast
  have hr: "arrays r pa = hd # tl" "points r hd = Pt tx ty"
    using ht tp tr(2) tr(5) [of hd] by simp_all
  have vr: "visualPlayers r pid = Some v" using tf(4) by (simp add: tr(1))
  have va: "vArr s pid = {vbody v}" "vPts s pid = set (arrays s (vbody v))"
    using tf(4) by (simp_all add: vArr_def vPts_def)
  show ?thesis
  proof (cases "hypot (tx - vx v) (ty - vy v) > 500")
    case True
    define objs where "objs = map (points r) (arrays r pa)"
    obtain a s1 where c: "allocArray objs r = (a, s1)" by (cases "allocArray objs r")
    note ae = allocArray_effect [OF c]
    have cb: "copyBody pa r = (a, s1)" unfolding copyBody_def objs_def [symmetric] by (rule c)
    define s' where "s' = s1\<lparr>visualPlayers := (visualPlayers s1)
        (pid \<mapsto> v\<lparr>vx := tx, vy := ty, vangle := pangle p, vbody := a\<rparr>)\<rparr>"
    have step: "stepPlayer dt pid s = Inr s'"
      unfolding stepPlayer_tracked [OF tf(1-4)] r_def [symmetric] interpolate_def s'_def
      using vr hr True cb by (simp add: Let_def)
    have lo: "length objs = length (arrays s pa)" "objs \<noteq> []"
      using tf(3) by (simp_all add: objs_def tr(2))
    have typed: "\<forall>ob \<in> set objs. ob \<noteq> Blank"
      using tp tr(5) by (auto simp: objs_def tr(2))
    have arr: "arrays s' a = [nextPoint r ..< nextPoint r + length objs]"
      by (simp add: s'_def ae(4) ae(1))
    have newpt: "points s' x \<noteq> Blank" if "nextPoint r \<le> x" "x < nextPoint r + length objs" for x
    proof -
      have "map (points s') [nextPoint r ..< nextPoint r + length objs] ! (x - nextPoint r)
          = objs ! (x - nextPoint r)"
        using ae(6) by (simp add: s'_def)
      then have e: "points s' x = objs ! (x - nextPoint r)" using that by simp
      have "x - nextPoint r < length objs" using that by arith
      then have "objs ! (x - nextPoint r) \<in> set objs" by (rule nth_mem)
      then show ?thesis using typed e by auto
    qed
    have 1: "nonStore s' = nonStore s" by (rule nonStore_stepPlayer [OF step])
    have 2: "nextPoint s \<le> nextPoint s'" "nextArray s \<le> nextArray s'"
      using tr(4) by (simp_all add: s'_def ae(2,3) tr(3))
    have 3: "\<forall>q. q \<noteq> pid \<longrightarrow> visualPlayers s' q = visualPlayers s q"
      by (simp add: s'_def ae(7) tr(1))
    have 4: "\<forall>b. b < nextArray s \<and> b \<notin> vArr s pid \<longrightarrow> arrays s' b = arrays s b"
      using tr(9) by (simp add: s'_def ae(4) tr(3) va)
    have 5: "\<forall>x. x < nextPoint s \<and> x \<notin> vPts s pid \<longrightarrow> points s' x = points s x"
      using tr(4) tr(5) ae(5) by (simp add: s'_def)
    have va': "vArr s' pid = {a}" by (simp add: vArr_def s'_def)
    have 6: "a < nextArray s'" "nextArray s \<le> a" "arrays s' a \<noteq> []"
      using lo tf(3) by (simp_all add: s'_def ae(1,2) tr(3) ae(4))
    have 7: "\<forall>x \<in> set (arrays s' a). x < nextPoint s' \<and> points s' x \<noteq> Blank \<and>
           (x \<in> vPts s pid \<or> nextPoint s \<le> x)"
      unfolding arr using newpt tr(4) by (auto simp: s'_def ae(3))
    have "visualStep s pid s'"
      unfolding visualStep_def va' using 1 2 3 4 5 6 7 by simp
    with step show ?thesis by blast
  next
    case False
    define v' where "v' = v\<lparr>vx := vx v + (tx - vx v) * (10 * dt),
                        vy := vy v + (ty - vy v) * (10 * dt),
                        vangle := vangle v + wrapAngle (pangle p - vangle v) * (10 * dt)\<rparr>"
    define m where "m = r\<lparr>visualPlayers := (visualPlayers r)(pid \<mapsto> v')\<rparr>"
    have step: "stepPlayer dt pid s = lerpBody (10 * dt) pa (vbody v) 0 m"
      unfolding stepPlayer_tracked [OF tf(1-4)] r_def [symmetric] interpolate_def m_def v'_def
      using vr hr False by (simp add: Let_def)
    have len: "length (arrays m pa) \<le> length (arrays m (vbody v))"
      by (simp add: m_def tr(2) tr(6))
    have typed: "\<forall>x \<in> set (arrays m pa) \<union> set (arrays m (vbody v)). points m x \<noteq> Blank"
      using tr(7) tp tr(5) by (auto simp: m_def tr(2))
    obtain s' where s': "lerpBody (10 * dt) pa (vbody v) 0 m = Inr s'"
      using lerpBody_total [OF len typed] by blast
    note le = lerpBody_effect [OF s']
    have st: "stepPlayer dt pid s = Inr s'" using step s' by simp
    have 1: "nonStore s' = nonStore s" by (rule nonStore_stepPlayer [OF st])
    have 2: "nextPoint s \<le> nextPoint s'" "nextArray s \<le> nextArray s'"
      using le tr(4) by (simp_all add: m_def tr(3))
    have 3: "\<forall>q. q \<noteq> pid \<longrightarrow> visualPlayers s' q = visualPlayers s q"
      using le by (simp add: m_def tr(1))
    have 4: "\<forall>b. b < nextArray s \<and> b \<notin> vArr s pid \<longrightarrow> arrays s' b = arrays s b"
      using le tr(9) by (simp add: m_def va)
    have 5: "\<forall>x. x < nextPoint s \<and> x \<notin> vPts s pid \<longrightarrow> points s' x = points s x"
    proof (intro allI impI)
      fix x assume x: "x < nextPoint s \<and> x \<notin> vPts s pid"
      then have "x \<notin> set (arrays m (vbody v))" using tr(8) by (auto simp: m_def va)
      then have "points s' x = points m x" using le by simp
      then show "points s' x = points s x" using x tr(5) by (simp add: m_def)
    qed
    have va': "vArr s' pid = {vbody v}" using le by (simp add: vArr_def m_def v'_def)
    have ar: "arrays s' (vbody v) = arrays r (vbody v)" using le by (simp add: m_def)
    have 6: "vbody v < nextArray s'" "vbody v \<in> vArr s pid" "arrays s' (vbody v) \<noteq> []"
      using tf(6) 2(2) tf(3) tr(6) by (auto simp: va ar)
    have 7: "\<forall>x \<in> set (arrays s' (vbody v)). x < nextPoint s' \<and> points s' x \<noteq> Blank \<and>
           (x \<in> vPts s pid \<or> nextPoint s \<le> x)"
    proof
      fix x assume x: "x \<in> set (arrays s' (vbody v))"
      then have xr: "x \<in> set (arrays r (vbody v))" by (simp add: ar)
      have a: "x < nextPoint s'" using xr tr(7) le by (simp add: m_def)
      have "points m x \<noteq> Blank" using xr tr(7) by (simp add: m_def)
      then have b: "points s' x \<noteq> Blank" using le by simp
      have c: "x \<in> vPts s pid \<or> nextPoint s \<le> x" using xr tr(8) by (auto simp: va)
      from a b c show "x < nextPoint s' \<and> points s' x \<noteq> Blank \<and>
           (x \<in> vPts s pid \<or> nextPoint s \<le> x)" by blast
    qed
    have "visualStep s pid s'"
      unfolding visualStep_def va' using 1 2 3 4 5 6 7 by simp
    with st show ?thesis by blast
  qed
qed

lemma reconcile_equal_lengths:
  "length (arrays s va) = length (arrays s pa) \<Longrightarrow> reconcile pa va s = s"
  by (simp add: reconcile_def growBody.simps shrinkBody.simps)

lemma stepPlayer_create:
  assumes pl: "map_of (players s) pid = Some p" "pbody p = Some pa" "arrays s pa \<noteq> []"
    and nv: "visualPlayers s pid = None"
    and pa: "pa < nextArray s"
    and tp: "\<forall>x \<in> set (arrays s pa). x < nextPoint s \<and> points s x \<noteq> Blank"
  shows "\<exists>s' hx hy. stepPlayer dt pid s = Inr s' \<and> authHead s pa = Pt hx hy
      \<and> visualPlayers s' = (visualPlayers s)
            (pid \<mapsto> \<lparr>vx = hx, vy = hy, vangle = pangle p, vbody = nextArray s\<rparr>)
      \<and> arrays s' (nextArray s) = [nextPoint s ..< nextPoint s + length (arrays s pa)]
      \<and> map (points s') (arrays s' (nextArray s)) = map (points s) (arrays s pa)
      \<and> (\<forall>b. b \<noteq> nextArray s \<longrightarrow> arrays s' b = arrays s b)
      \<and> (\<forall>x. x < nextPoint s \<longrightarrow> points s' x = points s x)
      \<and> nextPoint s' = nextPoint s + length (arrays s pa)
      \<and> nextArray s' = Suc (nextArray s)"
proof -
  obtain h t where ht: "arrays s pa = h # t" using pl(3) by (cases "arrays s pa") auto
  have hin: "h < nextPoint s" "points s h \<noteq> Blank" using tp ht by simp_all
  obtain hx hy where hp: "points s h = Pt hx hy" using hin(2) by (cases "points s h") auto
  have ah: "authHead s pa = Pt hx hy" by (simp add: authHead_def ht hp)
  define objs where "objs = map (points s) (arrays s pa)"
  define a where "a = nextArray s"
  obtain a' s1 where c: "allocArray objs s = (a', s1)" by (cases "allocArray objs s")
  note ae = allocArray_effect [OF c]
  have aa: "a' = a" by (simp add: ae(1) a_def)
  have cb: "copyBody pa s = (a, s1)" unfolding copyBody_def objs_def [symmetric] using c aa by simp
  have ne: "a \<noteq> pa" using pa by (simp add: a_def)
  have lo: "length objs = length (arrays s pa)" by (simp add: objs_def)
  define v0 where "v0 = \<lparr>vx = hx, vy = hy, vangle = pangle p, vbody = a\<rparr>"
  define m where "m = s1\<lparr>visualPlayers := (visualPlayers s1)(pid \<mapsto> v0)\<rparr>"
  have arr1: "arrays s1 pa = h # t" "arrays s1 a = [nextPoint s ..< nextPoint s + length objs]"
    using ne by (simp_all add: ae(4) a_def ht)
  have p1: "points s1 h = Pt hx hy" using ae(5) [OF hin(1)] hp by simp
  have cv: "createVisual pid p pa s = Inr m"
    unfolding createVisual_def cb m_def v0_def using arr1(1) p1 by simp
  have rec: "reconcile pa a m = m"
    by (rule reconcile_equal_lengths) (simp add: m_def arr1 ht lo)
  have vm: "visualPlayers m pid = Some v0" by (simp add: m_def)
  have step1: "stepPlayer dt pid s = interpolate dt pid p pa m"
    unfolding stepPlayer_def using pl nv cv vm rec by (simp add: v0_def)
  have w0: "wrapAngle 0 = 0" by (simp add: wrapAngle_id)
  have vsame: "v0\<lparr>vx := vx v0 + (hx - vx v0) * (10 * dt),
                  vy := vy v0 + (hy - vy v0) * (10 * dt),
                  vangle := vangle v0 + wrapAngle (pangle p - vangle v0) * (10 * dt)\<rparr> = v0"
    by (simp add: v0_def w0)
  have msame: "m\<lparr>visualPlayers := (visualPlayers m)(pid \<mapsto> v0)\<rparr> = m"
    by (simp add: m_def)
  have step2: "interpolate dt pid p pa m = lerpBody (10 * dt) pa a 0 m"
    unfolding interpolate_def using vm
    by (simp add: m_def arr1 p1 Let_def vsame [unfolded v0_def, simplified] v0_def w0)
  have fixed: "\<forall>j. 0 \<le> j \<and> j < length (arrays m pa) \<longrightarrow>
        j < length (arrays m a) \<and> points m (arrays m a ! j) = points m (arrays m pa ! j)
        \<and> points m (arrays m pa ! j) \<noteq> Blank"
  proof (intro allI impI)
    fix j assume "0 \<le> j \<and> j < length (arrays m pa)"
    then have j: "j < length (arrays s pa)" by (simp add: m_def arr1 ht)
    then have mem: "arrays s pa ! j \<in> set (arrays s pa)" by simp
    have lt: "arrays s pa ! j < nextPoint s" using mem tp by blast
    have apa: "arrays m pa = arrays s pa" by (simp add: m_def arr1(1) ht)
    have old: "points m (arrays m pa ! j) = points s (arrays s pa ! j)"
      unfolding apa using ae(5) [OF lt] by (simp add: m_def)
    have "map (points s1) [nextPoint s ..< nextPoint s + length objs] ! j = objs ! j"
      using ae(6) by simp
    then have new: "points m (arrays m a ! j) = points s (arrays s pa ! j)"
      using j by (simp add: m_def arr1(2) lo objs_def)
    have nb: "points s (arrays s pa ! j) \<noteq> Blank" using mem tp by blast
    have jl: "j < length (arrays m a)" using j by (simp add: m_def arr1(2) lo)
    show "j < length (arrays m a) \<and> points m (arrays m a ! j) = points m (arrays m pa ! j)
        \<and> points m (arrays m pa ! j) \<noteq> Blank"
      using jl nb unfolding old new by simp
  qed
  have step: "stepPlayer dt pid s = Inr m"
    unfolding step1 step2 by (rule lerpBody_fixed [OF fixed])
  have 1: "visualPlayers m = (visualPlayers s)
            (pid \<mapsto> \<lparr>vx = hx, vy = hy, vangle = pangle p, vbody = nextArray s\<rparr>)"
    by (simp add: m_def ae(7) v0_def a_def)
  have 2: "arrays m (nextArray s) = [nextPoint s ..< nextPoint s + length (arrays s pa)]"
    using arr1(2) by (simp add: m_def a_def lo)
  have 3: "map (points m) (arrays m (nextArray s)) = map (points s) (arrays s pa)"
    unfolding 2 using ae(6) by (simp add: m_def lo objs_def)
  have 4: "\<forall>b. b \<noteq> nextArray s \<longrightarrow> arrays m b = arrays s b" by (simp add: m_def ae(4))
  have 5: "\<forall>x. x < nextPoint s \<longrightarrow> points m x = points s x" using ae(5) by (simp add: m_def)
  have 6: "nextPoint m = nextPoint s + length (arrays s pa)" "nextArray m = Suc (nextArray s)"
    by (simp_all add: m_def ae(2,3) lo)
  from step ah 1 2 3 4 5 6 show ?thesis by blast
qed

lemma vPts_alt: "vPts s pid = (\<Union>a \<in> vArr s pid. set (arrays s a))"
  by (simp add: vPts_def vArr_def split: option.splits)

lemma inv_auth:
  assumes "storeInv s" "a \<in> authArrays s"
  shows "a < nextArray s" "\<And>x. x \<in> set (arrays s a) \<Longrightarrow> x < nextPoint s \<and> points s x \<noteq> Blank"
  using assms unfolding storeInv_def by blast+

lemma inv_authPoints:
  assumes "storeInv s" "x \<in> authPoints s"
  shows "x < nextPoint s" "points s x \<noteq> Blank"
  using assms inv_auth(2) unfolding authPoints_def by blast+

lemma inv_vis:
  assumes "storeInv s" "a \<in> vArr s pid"
  shows "a < nextArray s" "a \<notin> authArrays s" "arrays s a \<noteq> []"
    "\<And>x. x \<in> set (arrays s a) \<Longrightarrow> x < nextPoint s \<and> points s x \<noteq> Blank \<and> x \<notin> authPoints s"
  using assms unfolding storeInv_def by blast+

lemma inv_vPts:
  assumes "storeInv s" "x \<in> vPts s pid"
  shows "x < nextPoint s" "points s x \<noteq> Blank" "x \<notin> authPoints s"
  using assms inv_vis(4) unfolding vPts_alt by blast+

lemma inv_sep:
  assumes "storeInv s" "pid \<noteq> pid'"
  shows "vArr s pid \<inter> vArr s pid' = {}" "vPts s pid \<inter> vPts s pid' = {}"
  using assms unfolding storeInv_def by blast+

lemma visualStep_refl:
  assumes "storeInv s"
  shows "visualStep s pid s"
  unfolding visualStep_def
  using inv_vis [OF assms, of _ pid] by (auto simp: vPts_alt)

lemma visualStep_auth:
  assumes i: "storeInv s" and st: "visualStep s pid s'"
  shows "players s' = players s" "authArrays s' = authArrays s"
    "\<And>a. a \<in> authArrays s \<Longrightarrow> arrays s' a = arrays s a"
    "authPoints s' = authPoints s"
    "\<And>x. x \<in> authPoints s \<Longrightarrow> points s' x = points s x"
proof -
  have ns: "nonStore s' = nonStore s" using st by (simp add: visualStep_def)
  show pl: "players s' = players s" by (rule nonStore_fields(8) [OF ns])
  show aa: "authArrays s' = authArrays s" by (simp add: authArrays_def pl)
  show ar: "arrays s' a = arrays s a" if "a \<in> authArrays s" for a
  proof -
    have "a < nextArray s" by (rule inv_auth(1) [OF i that])
    moreover have "a \<notin> vArr s pid" using inv_vis(2) [OF i, of a pid] that by blast
    ultimately show ?thesis using st by (simp add: visualStep_def)
  qed
  show "authPoints s' = authPoints s" by (simp add: authPoints_def aa ar)
  show "points s' x = points s x" if "x \<in> authPoints s" for x
  proof -
    have "x < nextPoint s" by (rule inv_authPoints(1) [OF i that])
    moreover have "x \<notin> vPts s pid" using inv_vPts(3) [OF i, of x pid] that by blast
    ultimately show ?thesis using st by (simp add: visualStep_def)
  qed
qed

lemma visualStep_other:
  assumes i: "storeInv s" and st: "visualStep s pid s'" and q: "q \<noteq> pid"
  shows "visualPlayers s' q = visualPlayers s q" "vArr s' q = vArr s q"
    "\<And>a. a \<in> vArr s q \<Longrightarrow> arrays s' a = arrays s a"
    "vPts s' q = vPts s q"
    "\<And>x. x \<in> vPts s q \<Longrightarrow> points s' x = points s x"
proof -
  show vp: "visualPlayers s' q = visualPlayers s q" using st q by (simp add: visualStep_def)
  show va: "vArr s' q = vArr s q" by (simp add: vArr_def vp)
  show ar: "arrays s' a = arrays s a" if "a \<in> vArr s q" for a
  proof -
    have "a < nextArray s" by (rule inv_vis(1) [OF i that])
    moreover have "a \<notin> vArr s pid" using inv_sep(1) [OF i q] that by blast
    ultimately show ?thesis using st by (simp add: visualStep_def)
  qed
  show "vPts s' q = vPts s q" by (simp add: vPts_alt va ar)
  show "points s' x = points s x" if "x \<in> vPts s q" for x
  proof -
    have "x < nextPoint s" by (rule inv_vPts(1) [OF i that])
    moreover have "x \<notin> vPts s pid" using inv_sep(2) [OF i q] that by blast
    ultimately show ?thesis using st by (simp add: visualStep_def)
  qed
qed

lemma visualStep_self:
  assumes st: "visualStep s pid s'" and a: "a \<in> vArr s' pid"
  shows "a < nextArray s'" "a \<in> vArr s pid \<or> nextArray s \<le> a" "arrays s' a \<noteq> []"
    "\<And>x. x \<in> set (arrays s' a) \<Longrightarrow> x < nextPoint s' \<and> points s' x \<noteq> Blank \<and>
           (x \<in> vPts s pid \<or> nextPoint s \<le> x)"
  using assms unfolding visualStep_def by blast+

lemma visualStep_mono:
  assumes "visualStep s pid s'"
  shows "nextPoint s \<le> nextPoint s'" "nextArray s \<le> nextArray s'"
  using assms unfolding visualStep_def by blast+

lemma inv_visualStep:
  assumes i: "storeInv s" and st: "visualStep s pid s'"
  shows "storeInv s'"
proof -
  note au = visualStep_auth [OF i st]
  note mo = visualStep_mono [OF st]
  have a: "distinct (map fst (players s'))" using i by (simp add: au(1) storeInv_def)
  have b: "a < nextArray s' \<and> (\<forall>x \<in> set (arrays s' a). x < nextPoint s' \<and> points s' x \<noteq> Blank)"
    if "a \<in> authArrays s'" for a
  proof -
    have m: "a \<in> authArrays s" using that by (simp add: au(2))
    have 1: "a < nextArray s'" using inv_auth(1) [OF i m] mo by simp
    have 2: "x < nextPoint s' \<and> points s' x \<noteq> Blank" if "x \<in> set (arrays s' a)" for x
    proof -
      have x: "x \<in> set (arrays s a)" using that by (simp add: au(3) [OF m])
      then have "x \<in> authPoints s" using m by (auto simp: authPoints_def)
      then show ?thesis using inv_auth(2) [OF i m x] au(5) mo by simp
    qed
    from 1 2 show ?thesis by blast
  qed
  have c: "a < nextArray s' \<and> a \<notin> authArrays s' \<and> arrays s' a \<noteq> [] \<and>
        (\<forall>x \<in> set (arrays s' a). x < nextPoint s' \<and> points s' x \<noteq> Blank \<and> x \<notin> authPoints s')"
    if "a \<in> vArr s' q" for a q
  proof (cases "q = pid")
    case True
    note se = visualStep_self [OF st that [unfolded True]]
    have 1: "a \<notin> authArrays s"
      using se(2) inv_vis(2) [OF i, of a pid] inv_auth(1) [OF i, of a] by auto
    have 2: "x < nextPoint s' \<and> points s' x \<noteq> Blank \<and> x \<notin> authPoints s"
      if "x \<in> set (arrays s' a)" for x
      using se(4) [OF that] inv_vPts(3) [OF i, of x pid] inv_authPoints(1) [OF i, of x] by auto
    show ?thesis using se(1,3) 1 2 by (simp add: au(2,4))
  next
    case False
    note ot = visualStep_other [OF i st False]
    have m: "a \<in> vArr s q" using that by (simp add: ot(2))
    note iv = inv_vis [OF i m]
    have 2: "x < nextPoint s' \<and> points s' x \<noteq> Blank \<and> x \<notin> authPoints s"
      if "x \<in> set (arrays s' a)" for x
    proof -
      have x: "x \<in> set (arrays s a)" using that by (simp add: ot(3) [OF m])
      then have "x \<in> vPts s q" using m by (auto simp: vPts_alt)
      then show ?thesis using iv(4) [OF x] ot(5) mo by simp
    qed
    show ?thesis using iv(1,2,3) 2 mo by (simp add: au(2,4) ot(3) [OF m])
  qed
  have d1: "vArr s' pid \<inter> vArr s' q = {} \<and> vPts s' pid \<inter> vPts s' q = {}" if "q \<noteq> pid" for q
  proof -
    note ot = visualStep_other [OF i st that]
    have ne: "pid \<noteq> q" using that by simp
    have 1: "a \<notin> vArr s q" if "a \<in> vArr s' pid" for a
      using visualStep_self(2) [OF st that] inv_sep(1) [OF i ne] inv_vis(1) [OF i, of a q]
      by auto
    have 2: "x \<notin> vPts s q" if xp: "x \<in> vPts s' pid" for x
    proof -
      obtain a where "a \<in> vArr s' pid" "x \<in> set (arrays s' a)"
        using xp by (auto simp: vPts_alt)
      then show ?thesis
        using visualStep_self(4) [of s pid s' a x] st inv_sep(2) [OF i ne]
          inv_vPts(1) [OF i, of x q] by auto
    qed
    show ?thesis using 1 2 by (auto simp: ot(2,4))
  qed
  have d: "vArr s' q \<inter> vArr s' q' = {} \<and> vPts s' q \<inter> vPts s' q' = {}" if "q \<noteq> q'" for q q'
  proof (cases "q = pid")
    case True
    then show ?thesis using d1 [of q'] that by simp
  next
    case False
    show ?thesis
    proof (cases "q' = pid")
      case True
      then show ?thesis using d1 [OF False] by (simp add: Int_commute)
    next
      case q': False
      show ?thesis
        using inv_sep [OF i that]
        by (simp add: visualStep_other(2,4) [OF i st False] visualStep_other(2,4) [OF i st q'])
    qed
  qed
  show ?thesis unfolding storeInv_def using a b c d by blast
qed

lemma stepPlayer_inv_step:
  assumes i: "storeInv s" and k: "pid \<in> set (map fst (players s))"
  shows "\<exists>s'. stepPlayer dt pid s = Inr s' \<and> visualStep s pid s'"
proof -
  obtain p where p: "map_of (players s) pid = Some p"
    using k by (cases "map_of (players s) pid") (auto simp: map_of_eq_None_iff)
  show ?thesis
  proof (cases "pbody p")
    case None
    then have "stepPlayer dt pid s = Inr s" using p by (simp add: stepPlayer_def)
    then show ?thesis using visualStep_refl [OF i] by blast
  next
    case (Some pa)
    show ?thesis
    proof (cases "arrays s pa = []")
      case True
      then have "stepPlayer dt pid s = Inr s" using p Some by (simp add: stepPlayer_def)
      then show ?thesis using visualStep_refl [OF i] by blast
    next
      case False
      show ?thesis
      proof (cases "visualPlayers s pid")
        case (Some v)
        show ?thesis
          by (rule stepPlayer_tracked_step [OF inv_tracked [OF i p \<open>pbody p = Some pa\<close> False Some]])
      next
        case None
        have mem: "pa \<in> authArrays s"
          using p \<open>pbody p = Some pa\<close> by (auto simp: authArrays_def dest: map_of_SomeD)
        have tp: "\<forall>x \<in> set (arrays s pa). x < nextPoint s \<and> points s x \<noteq> Blank"
          using inv_auth(2) [OF i mem] by blast
        from stepPlayer_create [OF p \<open>pbody p = Some pa\<close> False None inv_auth(1) [OF i mem] tp, of dt]
        obtain s' hx hy where st: "stepPlayer dt pid s = Inr s'"
          and vp: "visualPlayers s' = (visualPlayers s)
            (pid \<mapsto> \<lparr>vx = hx, vy = hy, vangle = pangle p, vbody = nextArray s\<rparr>)"
          and ar: "arrays s' (nextArray s) = [nextPoint s ..< nextPoint s + length (arrays s pa)]"
          and cp: "map (points s') (arrays s' (nextArray s)) = map (points s) (arrays s pa)"
          and ao: "\<forall>b. b \<noteq> nextArray s \<longrightarrow> arrays s' b = arrays s b"
          and po: "\<forall>x. x < nextPoint s \<longrightarrow> points s' x = points s x"
          and np: "nextPoint s' = nextPoint s + length (arrays s pa)"
          and na: "nextArray s' = Suc (nextArray s)"
          by blast
        have va: "vArr s pid = {}" "vPts s pid = {}" using None by (simp_all add: vArr_def vPts_def)
        have va': "vArr s' pid = {nextArray s}" by (simp add: vArr_def vp)
        have typed: "points s' x \<noteq> Blank" if "x \<in> set (arrays s' (nextArray s))" for x
        proof -
          have "points s' x \<in> set (map (points s') (arrays s' (nextArray s)))"
            using that by simp
          then have "points s' x \<in> points s ` set (arrays s pa)" unfolding cp by simp
          then show ?thesis using tp by auto
        qed
        have "visualStep s pid s'"
          unfolding visualStep_def va va'
          using nonStore_stepPlayer [OF st] vp ao po np na False typed
          by (auto simp: ar)
        with st show ?thesis by blast
      qed
    qed
  qed
qed

lemma authSame_refl: "authSame s s"
  by (simp add: authSame_def)

lemma authSame_trans: "authSame s s1 \<Longrightarrow> authSame s1 s2 \<Longrightarrow> authSame s s2"
  unfolding authSame_def authArrays_def by auto

lemma visualStep_authSame: "storeInv s \<Longrightarrow> visualStep s pid s' \<Longrightarrow> authSame s s'"
  unfolding authSame_def
  using visualStep_auth(1,3,5) [of s pid s'] by (auto simp: authPoints_def)

lemma forPlayers_append:
  "forPlayers dt (xs @ ys) s =
     (case forPlayers dt xs s of Inl e \<Rightarrow> Inl e | Inr s1 \<Rightarrow> forPlayers dt ys s1)"
  by (induction xs arbitrary: s) (auto split: sum.splits)

lemma forPlayers_inv:
  "storeInv s \<Longrightarrow> set pids \<subseteq> set (map fst (players s)) \<Longrightarrow>
   \<exists>s'. forPlayers dt pids s = Inr s' \<and> storeInv s' \<and> authSame s s'
      \<and> nextPoint s \<le> nextPoint s' \<and> nextArray s \<le> nextArray s'
      \<and> (\<forall>q. q \<notin> set pids \<longrightarrow> visualPlayers s' q = visualPlayers s q
            \<and> (\<forall>a \<in> vArr s q. arrays s' a = arrays s a)
            \<and> (\<forall>x \<in> vPts s q. points s' x = points s x))"
proof (induction pids arbitrary: s)
  case Nil
  then show ?case by (simp add: authSame_refl)
next
  case (Cons pid pids)
  have k: "pid \<in> set (map fst (players s))" using Cons.prems(2) by simp
  obtain s1 where s1: "stepPlayer dt pid s = Inr s1" and vs: "visualStep s pid s1"
    using stepPlayer_inv_step [OF Cons.prems(1) k] by blast
  have i1: "storeInv s1" by (rule inv_visualStep [OF Cons.prems(1) vs])
  have pl: "players s1 = players s" by (rule visualStep_auth(1) [OF Cons.prems(1) vs])
  have sub: "set pids \<subseteq> set (map fst (players s1))" using Cons.prems(2) by (simp add: pl)
  obtain s' where s': "forPlayers dt pids s1 = Inr s'" and i': "storeInv s'"
    and as: "authSame s1 s'"
    and mo: "nextPoint s1 \<le> nextPoint s'" "nextArray s1 \<le> nextArray s'"
    and ot: "\<forall>q. q \<notin> set pids \<longrightarrow> visualPlayers s' q = visualPlayers s1 q
            \<and> (\<forall>a \<in> vArr s1 q. arrays s' a = arrays s1 a)
            \<and> (\<forall>x \<in> vPts s1 q. points s' x = points s1 x)"
    using Cons.IH [OF i1 sub] by blast
  have 1: "forPlayers dt (pid # pids) s = Inr s'" using s1 s' by simp
  have 2: "authSame s s'"
    by (rule authSame_trans [OF visualStep_authSame [OF Cons.prems(1) vs] as])
  have 3: "nextPoint s \<le> nextPoint s'" "nextArray s \<le> nextArray s'"
    using mo visualStep_mono [OF vs] by simp_all
  have 4: "visualPlayers s' q = visualPlayers s q
            \<and> (\<forall>a \<in> vArr s q. arrays s' a = arrays s a)
            \<and> (\<forall>x \<in> vPts s q. points s' x = points s x)"
    if "q \<notin> set (pid # pids)" for q
  proof -
    have q: "q \<noteq> pid" "q \<notin> set pids" using that by simp_all
    note o1 = visualStep_other [OF Cons.prems(1) vs q(1)]
    show ?thesis using ot q(2) o1 by simp
  qed
  from 1 i' 2 3 4 show ?case by blast
qed

lemma cleanup_inv:
  assumes "storeInv s"
  shows "storeInv (cleanup s)"
proof -
  have f: "players (cleanup s) = players s" "arrays (cleanup s) = arrays s"
    "points (cleanup s) = points s" "nextPoint (cleanup s) = nextPoint s"
    "nextArray (cleanup s) = nextArray s"
    by (simp_all add: cleanup_def)
  have au: "authArrays (cleanup s) = authArrays s" "authPoints (cleanup s) = authPoints s"
    by (simp_all add: authArrays_def authPoints_def f)
  have va: "vArr (cleanup s) q \<subseteq> vArr s q" for q
    by (simp add: vArr_def cleanup_def)
  have vp: "vPts (cleanup s) q \<subseteq> vPts s q" for q
    using va [of q] by (auto simp: vPts_alt f)
  have a: "\<forall>a \<in> authArrays s. a < nextArray s \<and>
        (\<forall>x \<in> set (arrays s a). x < nextPoint s \<and> points s x \<noteq> Blank)"
    using assms unfolding storeInv_def by blast
  have c: "a < nextArray s \<and> a \<notin> authArrays s \<and> arrays s a \<noteq> [] \<and>
        (\<forall>x \<in> set (arrays s a). x < nextPoint s \<and> points s x \<noteq> Blank \<and> x \<notin> authPoints s)"
    if "a \<in> vArr (cleanup s) q" for a q
    using inv_vis [OF assms, of a q] that va [of q] by blast
  have d: "vArr (cleanup s) q \<inter> vArr (cleanup s) q' = {}
         \<and> vPts (cleanup s) q \<inter> vPts (cleanup s) q' = {}" if "q \<noteq> q'" for q q'
    using inv_sep [OF assms that] va [of q] va [of q'] vp [of q] vp [of q'] by blast
  have e: "distinct (map fst (players s))" using assms by (simp add: storeInv_def)
  show ?thesis
    unfolding storeInv_def au f using e a c d by blast
qed

lemma updatePlayers_inv:
  assumes i: "storeInv s"
  shows "\<exists>s'. updatePlayers dt s = Inr s' \<and> storeInv s' \<and> authSame s s'
      \<and> nextPoint s \<le> nextPoint s' \<and> nextArray s \<le> nextArray s'"
proof -
  have sub: "set (map fst (players s)) \<subseteq> set (map fst (players (cleanup s)))"
    by (simp add: cleanup_def)
  obtain s' where "forPlayers dt (map fst (players s)) (cleanup s) = Inr s'" "storeInv s'"
    "authSame (cleanup s) s'" "nextPoint (cleanup s) \<le> nextPoint s'"
    "nextArray (cleanup s) \<le> nextArray s'"
    using forPlayers_inv [OF cleanup_inv [OF i] sub] by blast
  moreover have "authSame s (cleanup s)" by (simp add: authSame_def cleanup_def)
  ultimately show ?thesis
    unfolding updatePlayers_def using authSame_trans [of s "cleanup s" s']
    by (auto simp: cleanup_def)
qed

lemma updateCamera_store:
  assumes "updateCamera dt s = Inr s'"
  shows "players s' = players s" "arrays s' = arrays s" "points s' = points s"
    "visualPlayers s' = visualPlayers s" "nextPoint s' = nextPoint s" "nextArray s' = nextArray s"
  using assms
  by (auto simp: updateCamera_def updateSpectatorMovement_def Let_def
      split: if_splits sum.splits option.splits)

lemma updateCamera_total: "\<not> spectateMode s \<Longrightarrow> \<exists>s'. updateCamera dt s = Inr s'"
  by (simp add: updateCamera_def Let_def)

lemma authSame_body:
  assumes "authSame s s'" "map_of (players s) pid = Some p" "pbody p = Some pa"
  shows "arrays s' pa = arrays s pa" "map (points s') (arrays s' pa) = map (points s) (arrays s pa)"
    "authHead s' pa = authHead s pa"
proof -
  have mem: "pa \<in> authArrays s"
    using assms(2,3) by (auto simp: authArrays_def dest: map_of_SomeD)
  show a: "arrays s' pa = arrays s pa" using assms(1) mem by (simp add: authSame_def)
  have p: "\<forall>x \<in> set (arrays s pa). points s' x = points s x"
    using assms(1) mem by (simp add: authSame_def)
  show "map (points s') (arrays s' pa) = map (points s) (arrays s pa)"
    unfolding a using p by simp
  show "authHead s' pa = authHead s pa"
    unfolding authHead_def a using p by (cases "arrays s pa") simp_all
qed

text \<open>C9 (updateVisuals, frame). From a state that satisfies the store invariant, the
  loop over the players returns, and a whole \<open>updateVisuals\<close> step leaves the
  authoritative players as they were: the same map of player records (so every angle and
  length), and for every player the same body array holding the same points with the
  same coordinates.\<close>

theorem authoritative_state_unchanged:
  assumes "storeInv s"
  shows "(\<exists>s1. updatePlayers dt s = Inr s1)
       \<and> (\<forall>s'. updateVisuals dt s = Inr s' \<longrightarrow>
            players s' = players s
            \<and> (\<forall>pid p pa. map_of (players s) pid = Some p \<and> pbody p = Some pa \<longrightarrow>
                  arrays s' pa = arrays s pa
                  \<and> map (points s') (arrays s' pa) = map (points s) (arrays s pa)))"
proof -
  obtain s1 where s1: "updatePlayers dt s = Inr s1" and as: "authSame s s1"
    using updatePlayers_inv [OF assms] by blast
  have "players s' = players s
            \<and> (\<forall>pid p pa. map_of (players s) pid = Some p \<and> pbody p = Some pa \<longrightarrow>
                  arrays s' pa = arrays s pa
                  \<and> map (points s') (arrays s' pa) = map (points s) (arrays s pa))"
    if "updateVisuals dt s = Inr s'" for s'
  proof -
    have c: "updateCamera dt s1 = Inr s'" using that s1 by (simp add: updateVisuals_def)
    note cs = updateCamera_store [OF c]
    have as': "authSame s s'" using as by (simp add: authSame_def cs)
    have 1: "players s' = players s" using as' by (simp add: authSame_def)
    have 2: "arrays s' pa = arrays s pa
          \<and> map (points s') (arrays s' pa) = map (points s) (arrays s pa)"
      if "map_of (players s) pid = Some p \<and> pbody p = Some pa" for pid p pa
      using authSame_body(1,2) [OF as', of pid p pa] that by blast
    show ?thesis using 1 2 by blast
  qed
  with s1 show ?thesis by blast
qed

lemma scene_inv: "storeInv (scene hx hy ang \<lparr>vx = a, vy = b, vangle = c, vbody = 1\<rparr>)"
proof -
  define s where "s = scene hx hy ang \<lparr>vx = a, vy = b, vangle = c, vbody = 1\<rparr>"
  have f: "players s = [(''p'', \<lparr>pbody = Some 0, pangle = ang, plength = 10\<rparr>)]"
    "arrays s 0 = [0, 1]" "arrays s 1 = [2]" "nextPoint s = 3" "nextArray s = 2"
    "points s 0 = Pt hx hy" "points s 1 = Pt 7 7" "points s 2 = Pt a b"
    "visualPlayers s = [''p'' \<mapsto> \<lparr>vx = a, vy = b, vangle = c, vbody = 1\<rparr>]"
    by (simp_all add: s_def scene_def)
  have au: "authArrays s = {0}"
    by (auto simp: authArrays_def f(1))
  have ap: "authPoints s = {0, 1}"
    by (simp add: authPoints_def au f(2))
  have va: "vArr s q = (if q = ''p'' then {1} else {})" for q
    by (simp add: vArr_def f(9))
  have vp: "vPts s q = (if q = ''p'' then {2} else {})" for q
    using f(3) by (simp add: vPts_def f(9))
  have 1: "distinct (map fst (players s))" by (simp add: f(1))
  have 2: "\<forall>a \<in> authArrays s. a < nextArray s \<and>
        (\<forall>x \<in> set (arrays s a). x < nextPoint s \<and> points s x \<noteq> Blank)"
    using f by (simp add: au)
  have 3: "\<forall>pid. \<forall>a \<in> vArr s pid. a < nextArray s \<and> a \<notin> authArrays s \<and> arrays s a \<noteq> [] \<and>
        (\<forall>x \<in> set (arrays s a). x < nextPoint s \<and> points s x \<noteq> Blank \<and> x \<notin> authPoints s)"
    using f by (simp add: va au ap)
  have 4: "\<forall>pid pid'. pid \<noteq> pid' \<longrightarrow>
        vArr s pid \<inter> vArr s pid' = {} \<and> vPts s pid \<inter> vPts s pid' = {}"
    by (simp add: va vp)
  show ?thesis
    unfolding s_def [symmetric] storeInv_def using 1 2 3 4 by blast
qed

lemma updateVisuals_total:
  assumes "storeInv s" "\<not> spectateMode s"
  shows "\<exists>s'. updateVisuals dt s = Inr s'"
proof -
  obtain s1 where s1: "updatePlayers dt s = Inr s1"
    using updatePlayers_inv [OF assms(1)] by blast
  have "spectateMode s1 = spectateMode s"
    by (rule nonStore_fields(7) [OF nonStore_updatePlayers [OF s1]])
  then obtain s' where "updateCamera dt s1 = Inr s'"
    using updateCamera_total [of s1 dt] assms(2) by auto
  then show ?thesis using s1 by (simp add: updateVisuals_def)
qed

text \<open>C9 at a concrete input: one player with a two-point body and a visual player;
  after the step the body is the same array of the same two points.\<close>

theorem authoritative_state_unchanged_witness:
  "storeInv (scene 100 0 0 \<lparr>vx = 0, vy = 0, vangle = 0, vbody = 1\<rparr>)
   \<and> (case updateVisuals 0.05 (scene 100 0 0 \<lparr>vx = 0, vy = 0, vangle = 0, vbody = 1\<rparr>) of
        Inl e \<Rightarrow> False
      | Inr s' \<Rightarrow> players s' = [(''p'', \<lparr>pbody = Some 0, pangle = 0, plength = 10\<rparr>)]
                 \<and> arrays s' 0 = [0, 1]
                 \<and> map (points s') (arrays s' 0) = [Pt 100 0, Pt 7 7])"
proof -
  define s where "s = scene 100 0 0 \<lparr>vx = 0, vy = 0, vangle = 0, vbody = 1\<rparr>"
  define p where "p = \<lparr>pbody = Some 0, pangle = 0, plength = 10\<rparr>"
  have i: "storeInv s" unfolding s_def by (rule scene_inv)
  have f: "players s = [(''p'', p)]" "map_of (players s) ''p'' = Some p" "pbody p = Some 0"
    "arrays s 0 = [0, 1]" "map (points s) (arrays s 0) = [Pt 100 0, Pt 7 7]"
    "\<not> spectateMode s"
    by (simp_all add: s_def p_def scene_def initial_def)
  obtain s' where s': "updateVisuals 0.05 s = Inr s'"
    using updateVisuals_total [OF i f(6)] by blast
  from authoritative_state_unchanged [OF i, of "0.05"] s'
  have a: "players s' = players s" and b: "arrays s' 0 = arrays s 0"
    and c: "map (points s') (arrays s' 0) = map (points s) (arrays s 0)"
    using f(2,3) by blast+
  show ?thesis
    unfolding s_def [symmetric] s'
    using i a [unfolded f(1)] b [unfolded f(4)] c [unfolded f(5)] by (simp add: p_def)
qed

lemma forPlayers_keeps_none:
  assumes "storeInv s" "set pids \<subseteq> set (map fst (players s))" "pid \<notin> set pids"
    "forPlayers dt pids s = Inr s'"
  shows "visualPlayers s' pid = visualPlayers s pid"
  using forPlayers_inv [OF assms(1,2), of dt] assms(3,4) by auto

lemma first_sighting_loop:
  assumes i: "storeInv s" and p: "map_of (players s) pid = Some p"
    and nv: "visualPlayers s pid = None"
    and keys: "map fst (players s) = pre @ pid # post" "pid \<notin> set pre" "pid \<notin> set post"
  shows "\<exists>s'. forPlayers dt (map fst (players s)) s = Inr s' \<and> authSame s s'
      \<and> (\<forall>pa. pbody p = Some pa \<and> arrays s pa \<noteq> [] \<longrightarrow>
            (\<exists>v. visualPlayers s' pid = Some v \<and> authHead s' pa = Pt (vx v) (vy v)
                 \<and> vangle v = pangle p
                 \<and> map (points s') (arrays s' (vbody v)) = map (points s') (arrays s' pa)
                 \<and> nextArray s \<le> vbody v
                 \<and> (\<forall>x \<in> set (arrays s' (vbody v)). nextPoint s \<le> x)))
      \<and> (pbody p = None \<or> (\<exists>pa. pbody p = Some pa \<and> arrays s pa = [])
            \<longrightarrow> visualPlayers s' pid = None)"
proof -
  have sub1: "set pre \<subseteq> set (map fst (players s))" using keys(1) by auto
  obtain s1 where s1: "forPlayers dt pre s = Inr s1" and i1: "storeInv s1"
    and as1: "authSame s s1"
    and mo1: "nextPoint s \<le> nextPoint s1" "nextArray s \<le> nextArray s1"
    and ot1: "\<forall>q. q \<notin> set pre \<longrightarrow> visualPlayers s1 q = visualPlayers s q"
    using forPlayers_inv [OF i sub1, of dt] by blast
  have pl1: "players s1 = players s" using as1 by (simp add: authSame_def)
  have p1: "map_of (players s1) pid = Some p" using p by (simp add: pl1)
  have nv1: "visualPlayers s1 pid = None" using ot1 keys(2) nv by simp
  have k1: "pid \<in> set (map fst (players s1))" using keys(1) by (simp add: pl1)
  obtain s2 where s2: "stepPlayer dt pid s1 = Inr s2" and vs: "visualStep s1 pid s2"
    using stepPlayer_inv_step [OF i1 k1] by blast
  have i2: "storeInv s2" by (rule inv_visualStep [OF i1 vs])
  have as2: "authSame s1 s2" by (rule visualStep_authSame [OF i1 vs])
  have pl2: "players s2 = players s" using as2 pl1 by (simp add: authSame_def)
  have sub2: "set post \<subseteq> set (map fst (players s2))" using keys(1) by (auto simp: pl2)
  obtain s' where s': "forPlayers dt post s2 = Inr s'" and i': "storeInv s'"
    and as': "authSame s2 s'"
    and ot': "\<forall>q. q \<notin> set post \<longrightarrow> visualPlayers s' q = visualPlayers s2 q
            \<and> (\<forall>a \<in> vArr s2 q. arrays s' a = arrays s2 a)
            \<and> (\<forall>x \<in> vPts s2 q. points s' x = points s2 x)"
    using forPlayers_inv [OF i2 sub2, of dt] by blast
  have run: "forPlayers dt (map fst (players s)) s = Inr s'"
    unfolding keys(1) forPlayers_append using s1 s2 s' by simp
  have as: "authSame s s'"
    by (rule authSame_trans [OF authSame_trans [OF as1 as2] as'])
  have keep: "visualPlayers s' pid = visualPlayers s2 pid"
    "\<forall>a \<in> vArr s2 pid. arrays s' a = arrays s2 a"
    "\<forall>x \<in> vPts s2 pid. points s' x = points s2 x"
    using ot' keys(3) by simp_all
  have A: "\<exists>v. visualPlayers s' pid = Some v \<and> authHead s' pa = Pt (vx v) (vy v)
                 \<and> vangle v = pangle p
                 \<and> map (points s') (arrays s' (vbody v)) = map (points s') (arrays s' pa)
                 \<and> nextArray s \<le> vbody v
                 \<and> (\<forall>x \<in> set (arrays s' (vbody v)). nextPoint s \<le> x)"
    if pb: "pbody p = Some pa" and ne: "arrays s pa \<noteq> []" for pa
  proof -
    note b1 = authSame_body [OF as1 p pb]
    have mem: "pa \<in> authArrays s1"
      using p1 pb by (auto simp: authArrays_def dest: map_of_SomeD)
    have tp: "\<forall>x \<in> set (arrays s1 pa). x < nextPoint s1 \<and> points s1 x \<noteq> Blank"
      using inv_auth(2) [OF i1 mem] by blast
    have ne1: "arrays s1 pa \<noteq> []" using ne by (simp add: b1(1))
    from stepPlayer_create [OF p1 pb ne1 nv1 inv_auth(1) [OF i1 mem] tp, of dt] s2
    obtain hx hy where ah: "authHead s1 pa = Pt hx hy"
      and vp: "visualPlayers s2 = (visualPlayers s1)
            (pid \<mapsto> \<lparr>vx = hx, vy = hy, vangle = pangle p, vbody = nextArray s1\<rparr>)"
      and ar: "arrays s2 (nextArray s1) = [nextPoint s1 ..< nextPoint s1 + length (arrays s1 pa)]"
      and cp: "map (points s2) (arrays s2 (nextArray s1)) = map (points s1) (arrays s1 pa)"
      by auto
    define v where "v = \<lparr>vx = hx, vy = hy, vangle = pangle p, vbody = nextArray s1\<rparr>"
    have v2: "visualPlayers s2 pid = Some v" by (simp add: vp v_def)
    have va2: "vArr s2 pid = {nextArray s1}" "vPts s2 pid = set (arrays s2 (nextArray s1))"
      by (simp_all add: vArr_def vPts_def v2 v_def)
    have vb: "vbody v = nextArray s1" by (simp add: v_def)
    have e1: "arrays s' (nextArray s1) = arrays s2 (nextArray s1)"
      using keep(2) by (simp add: va2)
    have e2: "map (points s') (arrays s2 (nextArray s1))
            = map (points s2) (arrays s2 (nextArray s1))"
      using keep(3) by (simp add: va2)
    note b12 = authSame_body [OF as2 p1 pb]
    note bs = authSame_body [OF as p pb]
    have p2: "map_of (players s2) pid = Some p" using p by (simp add: pl2)
    note b2' = authSame_body [OF as' p2 pb]
    have 1: "visualPlayers s' pid = Some v" using keep(1) v2 by simp
    have 2: "authHead s' pa = Pt (vx v) (vy v)"
      using ah by (simp add: b2'(3) b12(3) v_def)
    have 3: "vangle v = pangle p" by (simp add: v_def)
    have 4: "map (points s') (arrays s' (vbody v)) = map (points s') (arrays s' pa)"
      unfolding vb e1 e2 cp b2'(2) b12(2) ..
    have 5: "nextArray s \<le> vbody v" using mo1 by (simp add: vb)
    have 6: "\<forall>x \<in> set (arrays s' (vbody v)). nextPoint s \<le> x"
      unfolding vb e1 ar using mo1 by auto
    from 1 2 3 4 5 6 show ?thesis by blast
  qed
  have B: "visualPlayers s' pid = None"
    if "pbody p = None \<or> (\<exists>pa. pbody p = Some pa \<and> arrays s pa = [])"
  proof -
    have "stepPlayer dt pid s1 = Inr s1"
    proof (cases "pbody p")
      case None
      then show ?thesis using p1 by (simp add: stepPlayer_def)
    next
      case (Some pa)
      then have "arrays s pa = []" using that by simp
      then have "arrays s1 pa = []" using authSame_body(1) [OF as1 p Some] by simp
      then show ?thesis using p1 Some by (simp add: stepPlayer_def)
    qed
    then have "s2 = s1" using s2 by simp
    then show ?thesis using keep(1) nv1 by simp
  qed
  from run as A B show ?thesis by blast
qed

text \<open>C10 (updateVisuals, creation). From a state that satisfies the store invariant,
  for a player without a visual entry, the loop over the players returns and a whole
  \<open>updateVisuals\<close> step ends as follows. If the authoritative body is non-empty, the
  player has a visual entry whose head is the first point of the authoritative body,
  whose angle is the authoritative angle, and whose body is a newly allocated array of
  newly allocated points equal, point by point, to the authoritative body. If the body is
  missing or empty, the player still has no visual entry.\<close>

theorem first_sighting_creates_visual:
  assumes "storeInv s" and "map_of (players s) pid = Some p" and "visualPlayers s pid = None"
  shows "(\<exists>s1. updatePlayers dt s = Inr s1)
       \<and> (\<forall>s'. updateVisuals dt s = Inr s' \<longrightarrow>
            (\<forall>pa. pbody p = Some pa \<and> arrays s pa \<noteq> [] \<longrightarrow>
               (\<exists>v. visualPlayers s' pid = Some v \<and> authHead s' pa = Pt (vx v) (vy v)
                  \<and> vangle v = pangle p
                  \<and> map (points s') (arrays s' (vbody v)) = map (points s') (arrays s' pa)
                  \<and> nextArray s \<le> vbody v
                  \<and> (\<forall>x \<in> set (arrays s' (vbody v)). nextPoint s \<le> x)))
            \<and> (pbody p = None \<or> (\<exists>pa. pbody p = Some pa \<and> arrays s pa = [])
                  \<longrightarrow> visualPlayers s' pid = None))"
proof -
  define c where "c = cleanup s"
  have ic: "storeInv c" unfolding c_def by (rule cleanup_inv [OF assms(1)])
  have f: "players c = players s" "arrays c = arrays s" "points c = points s"
    "nextPoint c = nextPoint s" "nextArray c = nextArray s" "visualPlayers c pid = None"
    using assms(3) by (simp_all add: c_def cleanup_def)
  have pc: "map_of (players c) pid = Some p" using assms(2) by (simp add: f(1))
  have "pid \<in> set (map fst (players c))"
    using pc by (metis map_of_eq_None_iff option.distinct(1) set_map)
  then obtain pre post where k: "map fst (players c) = pre @ pid # post"
    by (auto dest: split_list)
  have "distinct (map fst (players c))" using ic by (simp add: storeInv_def)
  then have kd: "pid \<notin> set pre" "pid \<notin> set post" unfolding k by simp_all
  from first_sighting_loop [OF ic pc f(6) k kd, of dt]
  obtain s1 where s1: "forPlayers dt (map fst (players c)) c = Inr s1"
    and A: "\<forall>pa. pbody p = Some pa \<and> arrays c pa \<noteq> [] \<longrightarrow>
            (\<exists>v. visualPlayers s1 pid = Some v \<and> authHead s1 pa = Pt (vx v) (vy v)
                 \<and> vangle v = pangle p
                 \<and> map (points s1) (arrays s1 (vbody v)) = map (points s1) (arrays s1 pa)
                 \<and> nextArray c \<le> vbody v
                 \<and> (\<forall>x \<in> set (arrays s1 (vbody v)). nextPoint c \<le> x))"
    and B: "pbody p = None \<or> (\<exists>pa. pbody p = Some pa \<and> arrays c pa = [])
            \<longrightarrow> visualPlayers s1 pid = None"
    by blast
  have up: "updatePlayers dt s = Inr s1"
    using s1 by (simp add: updatePlayers_def c_def [symmetric] f(1))
  have "(\<forall>pa. pbody p = Some pa \<and> arrays s pa \<noteq> [] \<longrightarrow>
               (\<exists>v. visualPlayers s' pid = Some v \<and> authHead s' pa = Pt (vx v) (vy v)
                  \<and> vangle v = pangle p
                  \<and> map (points s') (arrays s' (vbody v)) = map (points s') (arrays s' pa)
                  \<and> nextArray s \<le> vbody v
                  \<and> (\<forall>x \<in> set (arrays s' (vbody v)). nextPoint s \<le> x)))
            \<and> (pbody p = None \<or> (\<exists>pa. pbody p = Some pa \<and> arrays s pa = [])
                  \<longrightarrow> visualPlayers s' pid = None)"
    if "updateVisuals dt s = Inr s'" for s'
  proof -
    have cam: "updateCamera dt s1 = Inr s'" using that up by (simp add: updateVisuals_def)
    note cs = updateCamera_store [OF cam]
    have ah: "authHead s' pa = authHead s1 pa" for pa
      unfolding authHead_def cs by (rule refl)
    show ?thesis using A B unfolding ah cs f by simp
  qed
  with up show ?thesis by blast
qed

lemma updateVisuals_authSame:
  assumes "storeInv s" "updateVisuals dt s = Inr s'"
  shows "authSame s s'"
proof -
  obtain s1 where s1: "updatePlayers dt s = Inr s1" and as: "authSame s s1"
    using updatePlayers_inv [OF assms(1)] by blast
  have c: "updateCamera dt s1 = Inr s'" using assms(2) s1 by (simp add: updateVisuals_def)
  show ?thesis using as by (simp add: authSame_def updateCamera_store [OF c])
qed

lemma sceneNew_inv: "storeInv sceneNew"
proof -
  have f: "players sceneNew = [(''p'', \<lparr>pbody = Some 0, pangle = 3 / 2, plength = 10\<rparr>)]"
    "arrays sceneNew 0 = [0, 1]" "nextPoint sceneNew = 2" "nextArray sceneNew = 1"
    "points sceneNew 0 = Pt 5 6" "points sceneNew 1 = Pt 7 8"
    "visualPlayers sceneNew = Map.empty"
    by (simp_all add: sceneNew_def initial_def)
  have au: "authArrays sceneNew = {0}"
    by (auto simp: authArrays_def f(1))
  have va: "vArr sceneNew q = {}" "vPts sceneNew q = {}" for q
    by (simp_all add: vArr_def vPts_def f(7))
  have 1: "distinct (map fst (players sceneNew))" by (simp add: f(1))
  have 2: "\<forall>a \<in> authArrays sceneNew. a < nextArray sceneNew \<and>
        (\<forall>x \<in> set (arrays sceneNew a). x < nextPoint sceneNew \<and> points sceneNew x \<noteq> Blank)"
    using f by (simp add: au)
  show ?thesis
    unfolding storeInv_def va using 1 2 by simp
qed

text \<open>C10 at a concrete input: the player of \<open>sceneNew\<close> gets a visual player at its
  head \<open>(5, 6)\<close> with its angle and a copy of its two points.\<close>

theorem first_sighting_creates_visual_witness:
  "storeInv sceneNew
   \<and> map_of (players sceneNew) ''p'' = Some \<lparr>pbody = Some 0, pangle = 3 / 2, plength = 10\<rparr>
   \<and> visualPlayers sceneNew ''p'' = None
   \<and> arrays sceneNew 0 = [0, 1]
   \<and> (case updateVisuals 0.05 sceneNew of
        Inl e \<Rightarrow> False
      | Inr s' \<Rightarrow>
         (case visualPlayers s' ''p'' of
            None \<Rightarrow> False
          | Some v \<Rightarrow> vx v = 5 \<and> vy v = 6 \<and> vangle v = 3 / 2
                     \<and> map (points s') (arrays s' (vbody v)) = [Pt 5 6, Pt 7 8]
                     \<and> 1 \<le> vbody v))"
proof -
  define p where "p = \<lparr>pbody = Some 0, pangle = 3 / 2, plength = 10\<rparr>"
  note i = sceneNew_inv
  have f: "map_of (players sceneNew) ''p'' = Some p" "visualPlayers sceneNew ''p'' = None"
    "pbody p = Some 0" "arrays sceneNew 0 = [0, 1]" "\<not> spectateMode sceneNew"
    "nextArray sceneNew = 1" "pangle p = 3 / 2"
    "map (points sceneNew) (arrays sceneNew 0) = [Pt 5 6, Pt 7 8]"
    by (simp_all add: sceneNew_def p_def initial_def)
  have ne: "arrays sceneNew 0 \<noteq> []" by (simp add: f(4))
  obtain s' where s': "updateVisuals 0.05 sceneNew = Inr s'"
    using updateVisuals_total [OF i f(5)] by blast
  from first_sighting_creates_visual [OF i f(1,2), of "0.05"] s' f(3) ne
  obtain v where v: "visualPlayers s' ''p'' = Some v" "authHead s' 0 = Pt (vx v) (vy v)"
    "vangle v = pangle p"
    "map (points s') (arrays s' (vbody v)) = map (points s') (arrays s' 0)"
    "nextArray sceneNew \<le> vbody v"
    by blast
  note as = updateVisuals_authSame [OF i s']
  have a: "arrays s' 0 = arrays sceneNew 0"
    and b: "map (points s') (arrays s' 0) = map (points sceneNew) (arrays sceneNew 0)"
    using authSame_body(1,2) [OF as f(1,3)] by simp_all
  have h: "authHead s' 0 = Pt 5 6"
    using b a f(4) f(8) by (simp add: authHead_def)
  have hd: "vx v = 5" "vy v = 6" using v(2) h by simp_all
  have body: "map (points s') (arrays s' (vbody v)) = [Pt 5 6, Pt 7 8]"
    unfolding v(4) b f(8) by (rule refl)
  have ang: "vangle v = 3 / 2" using v(3) f(7) by simp
  have vb1: "1 \<le> vbody v" using v(5) f(6) by simp
  show ?thesis
    unfolding s' using i f(1,2,4) v(1) hd body ang vb1 by (simp add: p_def)
qed

section \<open>The store invariant holds in every reachable state\<close>

lemma storeInv_cong:
  assumes "storeInv s" "players s' = players s" "visualPlayers s' = visualPlayers s"
    "arrays s' = arrays s" "points s' = points s" "nextPoint s' = nextPoint s"
    "nextArray s' = nextArray s"
  shows "storeInv s'"
  using assms(1)
  unfolding storeInv_def authArrays_def authPoints_def vArr_def vPts_def assms(2-7) .

lemma installPlayers_effect:
  "installPlayers js s = (ps, s') \<Longrightarrow>
     map fst ps = map fst js
     \<and> nextArray s \<le> nextArray s' \<and> nextPoint s \<le> nextPoint s'
     \<and> (\<forall>a. a < nextArray s \<longrightarrow> arrays s' a = arrays s a)
     \<and> (\<forall>x. x < nextPoint s \<longrightarrow> points s' x = points s x)
     \<and> visualPlayers s' = visualPlayers s
     \<and> (\<forall>pid p a. (pid, p) \<in> set ps \<and> pbody p = Some a \<longrightarrow>
           nextArray s \<le> a \<and> a < nextArray s'
           \<and> (\<forall>x \<in> set (arrays s' a). nextPoint s \<le> x \<and> x < nextPoint s'
                  \<and> points s' x \<noteq> Blank))"
proof (induction js arbitrary: s ps s')
  case Nil
  then show ?case by simp
next
  case (Cons j js)
  obtain pid jp where j: "j = (pid, jp)" by (cases j)
  show ?case
  proof (cases "jbody jp")
    case None
    obtain ps1 s1 where r: "installPlayers js s = (ps1, s1)" by (cases "installPlayers js s")
    have e: "ps = (pid, \<lparr>pbody = None, pangle = jangle jp, plength = jlength jp\<rparr>) # ps1"
      "s' = s1"
      using Cons.prems None r by (simp_all add: j)
    show ?thesis using Cons.IH [OF r] unfolding e by (auto simp: j)
  next
    case (Some pts)
    define objs where "objs = map (\<lambda>(x, y). Pt x y) pts"
    obtain a s1 where c: "allocArray objs s = (a, s1)" by (cases "allocArray objs s")
    obtain ps1 s2 where r: "installPlayers js s1 = (ps1, s2)" by (cases "installPlayers js s1")
    have e: "ps = (pid, \<lparr>pbody = Some a, pangle = jangle jp, plength = jlength jp\<rparr>) # ps1"
      "s' = s2"
      using Cons.prems Some r c by (simp_all add: j objs_def)
    note ae = allocArray_effect [OF c]
    note ih = Cons.IH [OF r]
    have typed: "\<forall>ob \<in> set objs. ob \<noteq> Blank" by (auto simp: objs_def)
    have newpt: "points s1 x \<noteq> Blank" if "nextPoint s \<le> x" "x < nextPoint s + length objs" for x
    proof -
      have "map (points s1) [nextPoint s ..< nextPoint s + length objs] ! (x - nextPoint s)
          = objs ! (x - nextPoint s)"
        using ae(6) by simp
      then have q: "points s1 x = objs ! (x - nextPoint s)" using that by simp
      have "x - nextPoint s < length objs" using that by arith
      then have "objs ! (x - nextPoint s) \<in> set objs" by (rule nth_mem)
      then show ?thesis using typed q by auto
    qed
    have 1: "map fst ps = map fst (j # js)" using ih by (simp add: e j)
    have 2: "nextArray s \<le> nextArray s'" "nextPoint s \<le> nextPoint s'"
      using ih by (simp_all add: e ae(2,3))
    have 3: "\<forall>b. b < nextArray s \<longrightarrow> arrays s' b = arrays s b"
      using ih by (simp add: e ae(2,4))
    have 4: "\<forall>x. x < nextPoint s \<longrightarrow> points s' x = points s x"
      using ih ae(5) by (simp add: e ae(3))
    have 5: "visualPlayers s' = visualPlayers s" using ih by (simp add: e ae(7))
    have hd: "nextArray s \<le> a \<and> a < nextArray s'
           \<and> (\<forall>x \<in> set (arrays s' a). nextPoint s \<le> x \<and> x < nextPoint s'
                  \<and> points s' x \<noteq> Blank)"
    proof -
      have a1: "a < nextArray s1" by (simp add: ae(1,2))
      then have ar: "arrays s' a = [nextPoint s ..< nextPoint s + length objs]"
        using ih by (simp add: e ae(4) ae(1))
      have "points s' x \<noteq> Blank" if "nextPoint s \<le> x" "x < nextPoint s + length objs" for x
      proof -
        have "x < nextPoint s1" using that by (simp add: ae(3))
        then have "points s' x = points s1 x" using ih by (simp add: e)
        then show ?thesis using newpt [OF that] by simp
      qed
      then show ?thesis
        unfolding ar using a1 ih by (auto simp: e ae(1,3))
    qed
    have tl: "nextArray s \<le> b \<and> b < nextArray s'
           \<and> (\<forall>x \<in> set (arrays s' b). nextPoint s \<le> x \<and> x < nextPoint s'
                  \<and> points s' x \<noteq> Blank)"
      if "(q, p) \<in> set ps1" "pbody p = Some b" for q p b
    proof -
      have "nextArray s1 \<le> b \<and> b < nextArray s2
           \<and> (\<forall>x \<in> set (arrays s2 b). nextPoint s1 \<le> x \<and> x < nextPoint s2
                  \<and> points s2 x \<noteq> Blank)"
        using ih that by blast
      then show ?thesis by (auto simp: e ae(2,3))
    qed
    have 6: "\<forall>q p b. (q, p) \<in> set ps \<and> pbody p = Some b \<longrightarrow>
           nextArray s \<le> b \<and> b < nextArray s'
           \<and> (\<forall>x \<in> set (arrays s' b). nextPoint s \<le> x \<and> x < nextPoint s'
                  \<and> points s' x \<noteq> Blank)"
    proof (intro allI impI)
      fix q p b assume m: "(q, p) \<in> set ps \<and> pbody p = Some b"
      show "nextArray s \<le> b \<and> b < nextArray s'
           \<and> (\<forall>x \<in> set (arrays s' b). nextPoint s \<le> x \<and> x < nextPoint s'
                  \<and> points s' x \<noteq> Blank)"
      proof (cases "(q, p) \<in> set ps1")
        case True
        then show ?thesis using tl m by blast
      next
        case False
        then have "b = a" using m by (auto simp: e(1))
        then show ?thesis using hd by simp
      qed
    qed
    from 1 2 3 4 5 6 show ?thesis by blast
  qed
qed

lemma installPlayers_storeInv:
  assumes i: "storeInv s" and d: "distinct (map fst js)"
    and r: "installPlayers js s = (ps, s0)"
  shows "storeInv (s0\<lparr>players := ps\<rparr>)"
proof -
  define n where "n = s0\<lparr>players := ps\<rparr>"
  have e: "map fst ps = map fst js" "nextArray s \<le> nextArray s0" "nextPoint s \<le> nextPoint s0"
    "\<forall>a. a < nextArray s \<longrightarrow> arrays s0 a = arrays s a"
    "\<forall>x. x < nextPoint s \<longrightarrow> points s0 x = points s x"
    "visualPlayers s0 = visualPlayers s"
    and new: "\<forall>pid p a. (pid, p) \<in> set ps \<and> pbody p = Some a \<longrightarrow>
           nextArray s \<le> a \<and> a < nextArray s0
           \<and> (\<forall>x \<in> set (arrays s0 a). nextPoint s \<le> x \<and> x < nextPoint s0
                  \<and> points s0 x \<noteq> Blank)"
    using installPlayers_effect [OF r] by blast+
  have f: "players n = ps" "arrays n = arrays s0" "points n = points s0"
    "nextPoint n = nextPoint s0" "nextArray n = nextArray s0"
    "visualPlayers n = visualPlayers s"
    by (simp_all add: n_def e(6))
  have au: "nextArray s \<le> a \<and> a < nextArray n
           \<and> (\<forall>x \<in> set (arrays n a). nextPoint s \<le> x \<and> x < nextPoint n
                  \<and> points n x \<noteq> Blank)"
    if "a \<in> authArrays n" for a
    using that new unfolding authArrays_def f by blast
  have ap: "nextPoint s \<le> x" if "x \<in> authPoints n" for x
    using that au unfolding authPoints_def by blast
  have va: "vArr n q = vArr s q" for q by (simp add: vArr_def f(6))
  have ar: "arrays n a = arrays s a" if "a \<in> vArr s q" for a q
    using inv_vis(1) [OF i that] e(4) by (simp add: f)
  have vp: "vPts n q = vPts s q" for q by (simp add: vPts_alt va ar)
  have pt: "points n x = points s x" if "x \<in> vPts s q" for x q
    using inv_vPts(1) [OF i that] e(5) by (simp add: f)
  have 1: "distinct (map fst (players n))" using d by (simp add: f e(1))
  have 2: "\<forall>a \<in> authArrays n. a < nextArray n \<and>
        (\<forall>x \<in> set (arrays n a). x < nextPoint n \<and> points n x \<noteq> Blank)"
    using au by blast
  have 3: "a < nextArray n \<and> a \<notin> authArrays n \<and> arrays n a \<noteq> [] \<and>
        (\<forall>x \<in> set (arrays n a). x < nextPoint n \<and> points n x \<noteq> Blank \<and> x \<notin> authPoints n)"
    if m: "a \<in> vArr n q" for a q
  proof -
    have ms: "a \<in> vArr s q" using m by (simp add: va)
    note iv = inv_vis [OF i ms]
    have a: "a < nextArray n" using iv(1) e(2) by (simp add: f)
    have b: "a \<notin> authArrays n" using iv(1) au [of a] by auto
    have c: "arrays n a \<noteq> []" using iv(3) by (simp add: ar [OF ms])
    have dd: "x < nextPoint n \<and> points n x \<noteq> Blank \<and> x \<notin> authPoints n"
      if "x \<in> set (arrays n a)" for x
    proof -
      have xs: "x \<in> set (arrays s a)" using that by (simp add: ar [OF ms])
      then have xv: "x \<in> vPts s q" using ms by (auto simp: vPts_alt)
      have "x < nextPoint s" "points s x \<noteq> Blank" using iv(4) [OF xs] by simp_all
      then show ?thesis using pt [OF xv] e(3) ap [of x] by (auto simp: f)
    qed
    from a b c dd show ?thesis by blast
  qed
  have 4: "\<forall>q q'. q \<noteq> q' \<longrightarrow> vArr n q \<inter> vArr n q' = {} \<and> vPts n q \<inter> vPts n q' = {}"
    using inv_sep [OF i] by (simp add: va vp)
  show ?thesis
    unfolding n_def [symmetric] storeInv_def using 1 2 3 4 by blast
qed

lemma gameTick_storeInv:
  assumes "storeInv s" "distinct (map fst (tplayers t))" "gameTick t sid s = Inr s'"
  shows "storeInv s'"
proof -
  obtain ps s0 where r: "installPlayers (tplayers t) s = (ps, s0)"
    by (cases "installPlayers (tplayers t) s")
  note i0 = installPlayers_storeInv [OF assms(1,2) r]
  have "players s' = ps \<and> visualPlayers s' = visualPlayers s0 \<and> arrays s' = arrays s0
      \<and> points s' = points s0 \<and> nextPoint s' = nextPoint s0 \<and> nextArray s' = nextArray s0"
    using assms(3) r
    by (auto simp: gameTick_def Let_def split: option.splits if_splits sum.splits)
  then show ?thesis by (intro storeInv_cong [OF i0]) simp_all
qed

lemma updateVisuals_storeInv:
  assumes "storeInv s" "updateVisuals dt s = Inr s'"
  shows "storeInv s'"
proof -
  obtain s1 where s1: "updatePlayers dt s = Inr s1" and i1: "storeInv s1"
    using updatePlayers_inv [OF assms(1)] by blast
  have c: "updateCamera dt s1 = Inr s'" using assms(2) s1 by (simp add: updateVisuals_def)
  note u = updateCamera_store [OF c]
  show ?thesis by (rule storeInv_cong [OF i1 u(1) u(4) u(2) u(3) u(5) u(6)])
qed

lemma initial_storeInv: "storeInv (initial\<lparr>lastTime := now\<rparr>)"
  by (simp add: storeInv_def authArrays_def vArr_def vPts_def initial_def)

lemma handle_storeInv:
  assumes i: "storeInv s" and w: "wellFormed e" and h: "handle e s = Inr s'"
  shows "storeInv s'"
proof (cases e)
  case (GameTick t sid)
  then show ?thesis using gameTick_storeInv [OF i] w h by (simp add: wellFormed_def)
next
  case (Frame now)
  have "storeInv (s\<lparr>lastTime := now\<rparr>)" by (rule storeInv_cong [OF i]) simp_all
  then show ?thesis using updateVisuals_storeInv h Frame by auto
next
  case (KeyDown key code)
  have "s' = onKeyDown key code s" using h KeyDown by simp
  then show ?thesis
    by (intro storeInv_cong [OF i])
       (simp_all add: onKeyDown_def Let_def emit_def cheatBoost_def startBoost_def)
qed (use h in \<open>auto intro!: storeInv_cong [OF i] simp: Let_def onMouseMove_def startBoost_def
       endBoost_def emit_def onKeyUp_def onWheel_def\<close>)

text \<open>Every reachable state satisfies the store invariant, so the properties proved
  from it hold whenever \<open>updateVisuals\<close> runs.\<close>

lemma reachable_storeInv: "reachable s \<Longrightarrow> storeInv s"
  by (induction rule: reachable.induct) (auto intro: initial_storeInv handle_storeInv)

section \<open>The points of a visual body are distinct objects\<close>

lemma bodiesDistinct_cong:
  assumes "bodiesDistinct s" "visualPlayers s' = visualPlayers s" "arrays s' = arrays s"
  shows "bodiesDistinct s'"
  using assms(1) unfolding bodiesDistinct_def assms(2,3) .

lemma reconcile_distinct:
  assumes d: "distinct (arrays s va)" and b: "\<forall>x \<in> set (arrays s va). x < nextPoint s"
  shows "distinct (arrays (reconcile pa va s) va)"
proof (cases "va = pa")
  case True
  then show ?thesis using d by (simp add: reconcile_same)
next
  case False
  have t: "set (take n (arrays s va)) \<subseteq> set (arrays s va)" for n by (rule set_take_subset)
  have lt: "x < nextPoint s" if "x \<in> set (take (length (arrays s pa)) (arrays s va))" for x
    using that b t [of "length (arrays s pa)"] by blast
  have dj: "set (take (length (arrays s pa)) (arrays s va))
      \<inter> set [nextPoint s ..< nextPoint s + (length (arrays s pa) - length (arrays s va))] = {}"
  proof (rule ccontr)
    assume "\<not> ?thesis"
    then obtain x where x: "x \<in> set (take (length (arrays s pa)) (arrays s va))"
      and y: "x \<in> set [nextPoint s ..< nextPoint s + (length (arrays s pa) - length (arrays s va))]"
      by blast
    from lt [OF x] y show False by simp
  qed
  have "distinct (take (length (arrays s pa)) (arrays s va)
        @ [nextPoint s ..< nextPoint s + (length (arrays s pa) - length (arrays s va))])"
    unfolding distinct_append using d dj by (simp add: distinct_take)
  then show ?thesis by (simp add: reconcile_effect(1) [OF False])
qed

lemma interpolate_distinct:
  assumes r: "interpolate dt pid p pa s = Inr s'" and v: "visualPlayers s pid = Some v"
    and d: "distinct (arrays s (vbody v))" and v': "visualPlayers s' pid = Some v'"
  shows "distinct (arrays s' (vbody v'))"
proof -
  obtain h t where b: "arrays s pa = h # t" using r v
    by (cases "arrays s pa") (simp_all add: interpolate_def)
  obtain tx ty where hp: "points s h = Pt tx ty" using r v b
    by (cases "points s h") (simp_all add: interpolate_def)
  show ?thesis
  proof (cases "hypot (tx - vx v) (ty - vy v) > 500")
    case True
    then show ?thesis
      using r v b hp v'
      by (auto simp: interpolate_def Let_def copyBody_def allocArray_def)
  next
    case False
    define vis' where "vis' = v\<lparr>vx := vx v + (tx - vx v) * (10 * dt),
                        vy := vy v + (ty - vy v) * (10 * dt),
                        vangle := vangle v + wrapAngle (pangle p - vangle v) * (10 * dt)\<rparr>"
    have l: "lerpBody (10 * dt) pa (vbody v) 0
              (s\<lparr>visualPlayers := (visualPlayers s)(pid \<mapsto> vis')\<rparr>) = Inr s'"
      using r v b hp False by (simp add: interpolate_def Let_def vis'_def)
    from lerpBody_effect [OF l]
    have e: "arrays s' = arrays s" "visualPlayers s' = (visualPlayers s)(pid \<mapsto> vis')"
      by simp_all
    have "v' = vis'" using v' e(2) by simp
    then show ?thesis using d by (simp add: e(1) vis'_def)
  qed
qed

lemma stepPlayer_self_distinct:
  assumes i: "storeInv s" and bd: "bodiesDistinct s"
    and st: "stepPlayer dt pid s = Inr s'" and v': "visualPlayers s' pid = Some v'"
  shows "distinct (arrays s' (vbody v'))"
proof -
  obtain p where p: "map_of (players s) pid = Some p"
    using st by (cases "map_of (players s) pid") (simp_all add: stepPlayer_def)
  show ?thesis
  proof (cases "pbody p")
    case None
    then have "s' = s" using st p by (simp add: stepPlayer_def)
    then show ?thesis using bd v' by (simp add: bodiesDistinct_def)
  next
    case (Some pa)
    show ?thesis
    proof (cases "arrays s pa = []")
      case True
      then have "s' = s" using st p Some by (simp add: stepPlayer_def)
      then show ?thesis using bd v' by (simp add: bodiesDistinct_def)
    next
      case False
      have au: "pa \<in> authArrays s"
        using p Some by (auto simp: authArrays_def dest: map_of_SomeD)
      show ?thesis
      proof (cases "visualPlayers s pid")
        case None
        from stepPlayer_create [OF p Some False None inv_auth(1) [OF i au], of dt]
          inv_auth(2) [OF i au]
        obtain s2 hx hy where s2: "stepPlayer dt pid s = Inr s2"
          and vp: "visualPlayers s2 = (visualPlayers s)
            (pid \<mapsto> \<lparr>vx = hx, vy = hy, vangle = pangle p, vbody = nextArray s\<rparr>)"
          and ar: "arrays s2 (nextArray s) = [nextPoint s ..< nextPoint s + length (arrays s pa)]"
          by blast
        have "s2 = s'" using s2 st by simp
        then have "vbody v' = nextArray s" using vp v' by auto
        then show ?thesis using ar \<open>s2 = s'\<close> by simp
      next
        case (Some v)
        note t = inv_tracked [OF i p \<open>pbody p = Some pa\<close> False Some]
        define r where "r = reconcile pa (vbody v) s"
        have e: "stepPlayer dt pid s = interpolate dt pid p pa r"
          unfolding r_def by (rule stepPlayer_tracked [OF p \<open>pbody p = Some pa\<close> False Some])
        have vr: "visualPlayers r pid = Some v"
          using tracked_reconcile(1) [OF t] Some by (simp add: r_def)
        have va: "vbody v \<in> vArr s pid" using Some by (simp add: vArr_def)
        have b: "\<forall>x \<in> set (arrays s (vbody v)). x < nextPoint s"
          using inv_vis(4) [OF i va] by blast
        have d0: "distinct (arrays s (vbody v))" using bd Some by (simp add: bodiesDistinct_def)
        have dr: "distinct (arrays r (vbody v))"
          unfolding r_def by (rule reconcile_distinct [OF d0 b])
        show ?thesis
          by (rule interpolate_distinct [OF st [unfolded e] vr dr v'])
      qed
    qed
  qed
qed

lemma stepPlayer_distinct:
  assumes i: "storeInv s" and bd: "bodiesDistinct s"
    and k: "pid \<in> set (map fst (players s))" and st: "stepPlayer dt pid s = Inr s'"
  shows "bodiesDistinct s'"
proof -
  have vs: "visualStep s pid s'" using stepPlayer_inv_step [OF i k, of dt] st by auto
  have "distinct (arrays s' (vbody w))" if w: "visualPlayers s' q = Some w" for q w
  proof (cases "q = pid")
    case True
    then show ?thesis using stepPlayer_self_distinct [OF i bd st] w by simp
  next
    case False
    note o = visualStep_other [OF i vs False]
    have w0: "visualPlayers s q = Some w" using o(1) w by simp
    then have "vbody w \<in> vArr s q" by (simp add: vArr_def)
    then have "arrays s' (vbody w) = arrays s (vbody w)" by (rule o(3))
    then show ?thesis using bd w0 by (simp add: bodiesDistinct_def)
  qed
  then show ?thesis unfolding bodiesDistinct_def by blast
qed

lemma forPlayers_distinct:
  "storeInv s \<Longrightarrow> bodiesDistinct s \<Longrightarrow> set pids \<subseteq> set (map fst (players s)) \<Longrightarrow>
   forPlayers dt pids s = Inr s' \<Longrightarrow> bodiesDistinct s'"
proof (induction pids arbitrary: s)
  case Nil
  then show ?case by simp
next
  case (Cons pid pids)
  have k: "pid \<in> set (map fst (players s))" using Cons.prems(3) by simp
  obtain s1 where s1: "stepPlayer dt pid s = Inr s1" and vs: "visualStep s pid s1"
    using stepPlayer_inv_step [OF Cons.prems(1) k, of dt] by blast
  have i1: "storeInv s1" by (rule inv_visualStep [OF Cons.prems(1) vs])
  have d1: "bodiesDistinct s1" by (rule stepPlayer_distinct [OF Cons.prems(1,2) k s1])
  have "nonStore s1 = nonStore s" using vs by (simp add: visualStep_def)
  then have pl: "players s1 = players s" by (rule nonStore_fields(8))
  have r: "forPlayers dt pids s1 = Inr s'" using Cons.prems(4) s1 by simp
  show ?case
    by (rule Cons.IH [OF i1 d1 _ r]) (use Cons.prems(3) pl in simp)
qed

lemma cleanup_distinct: "bodiesDistinct s \<Longrightarrow> bodiesDistinct (cleanup s)"
  by (auto simp: bodiesDistinct_def cleanup_def split: if_splits)

lemma updateVisuals_distinct:
  assumes i: "storeInv s" and bd: "bodiesDistinct s" and u: "updateVisuals dt s = Inr s'"
  shows "bodiesDistinct s'"
proof -
  obtain s1 where s1: "updatePlayers dt s = Inr s1"
    using updatePlayers_inv [OF i] by blast
  have c: "updateCamera dt s1 = Inr s'" using u s1 by (simp add: updateVisuals_def)
  have pl: "players (cleanup s) = players s" by (simp add: cleanup_def)
  have f: "forPlayers dt (map fst (players (cleanup s))) (cleanup s) = Inr s1"
    using s1 by (simp add: updatePlayers_def pl)
  have d1: "bodiesDistinct s1"
    by (rule forPlayers_distinct [OF cleanup_inv [OF i] cleanup_distinct [OF bd] _ f]) simp
  note uc = updateCamera_store [OF c]
  show ?thesis by (rule bodiesDistinct_cong [OF d1 uc(4) uc(2)])
qed

lemma gameTick_distinct:
  assumes i: "storeInv s" and bd: "bodiesDistinct s" and g: "gameTick t sid s = Inr s'"
  shows "bodiesDistinct s'"
proof -
  obtain ps s0 where r: "installPlayers (tplayers t) s = (ps, s0)"
    by (cases "installPlayers (tplayers t) s")
  have e: "\<forall>a. a < nextArray s \<longrightarrow> arrays s0 a = arrays s a"
    "visualPlayers s0 = visualPlayers s"
    using installPlayers_effect [OF r] by blast+
  have f: "visualPlayers s' = visualPlayers s0 \<and> arrays s' = arrays s0"
    using g r
    by (auto simp: gameTick_def Let_def split: option.splits if_splits sum.splits)
  have "distinct (arrays s' (vbody w))" if w: "visualPlayers s' q = Some w" for q w
  proof -
    have w0: "visualPlayers s q = Some w" using w f e(2) by simp
    then have "vbody w \<in> vArr s q" by (simp add: vArr_def)
    then have "vbody w < nextArray s" by (rule inv_vis(1) [OF i])
    then have "arrays s' (vbody w) = arrays s (vbody w)" using f e(1) by simp
    then show ?thesis using bd w0 by (simp add: bodiesDistinct_def)
  qed
  then show ?thesis unfolding bodiesDistinct_def by blast
qed

lemma handle_distinct:
  assumes i: "storeInv s" and bd: "bodiesDistinct s" and h: "handle e s = Inr s'"
  shows "bodiesDistinct s'"
proof (cases e)
  case (GameTick t sid)
  then show ?thesis using gameTick_distinct [OF i bd] h by simp
next
  case (Frame now)
  have 1: "storeInv (s\<lparr>lastTime := now\<rparr>)" by (rule storeInv_cong [OF i]) simp_all
  have 2: "bodiesDistinct (s\<lparr>lastTime := now\<rparr>)" by (rule bodiesDistinct_cong [OF bd]) simp_all
  show ?thesis using updateVisuals_distinct [OF 1 2] h Frame by simp
next
  case (KeyDown key code)
  have "s' = onKeyDown key code s" using h KeyDown by simp
  then show ?thesis
    by (intro bodiesDistinct_cong [OF bd])
       (simp_all add: onKeyDown_def Let_def emit_def cheatBoost_def startBoost_def)
qed (use h in \<open>auto intro!: bodiesDistinct_cong [OF bd] simp: Let_def onMouseMove_def startBoost_def
       endBoost_def emit_def onKeyUp_def onWheel_def\<close>)

text \<open>In every reachable state the points of every visual body are distinct objects, and
  a player with a non-empty body and a visual player is tracked.\<close>

lemma reachable_distinct: "reachable s \<Longrightarrow> bodiesDistinct s"
proof (induction rule: reachable.induct)
  case (started now)
  show ?case by (simp add: bodiesDistinct_def initial_def)
next
  case (handled s e s')
  show ?case
    by (rule handle_distinct [OF reachable_storeInv [OF handled.hyps(1)] handled.IH handled.hyps(3)])
qed

lemma reachable_tracked:
  assumes "reachable s" "map_of (players s) pid = Some p" "pbody p = Some pa"
    "arrays s pa \<noteq> []" "visualPlayers s pid = Some v"
  shows "tracked s pid p pa v" "distinct (arrays s (vbody v))"
proof -
  show "tracked s pid p pa v"
    by (rule inv_tracked [OF reachable_storeInv [OF assms(1)] assms(2-5)])
  show "distinct (arrays s (vbody v))"
    using reachable_distinct [OF assms(1)] assms(5) by (simp add: bodiesDistinct_def)
qed

section \<open>Interpolation of the head and of the body points\<close>









end
